theory Spec2Isabelle
  imports Main "HOL-Library.Word" "HOL-Library.Signed_Division" "HOL-Library.Sublist"
begin

section \<open>The measuring ring buffer\<close>

text \<open>
  A model of package \<open>measuringringbuffer\<close>: the \<open>Buffer\<close> struct, \<open>New\<close>, \<open>Stats\<close>,
  \<open>ReadFrom\<close>, \<open>WriteTo\<close> and \<open>Copy\<close>.

  \<^item> Go's \<open>int\<close>, \<open>int64\<close> and \<open>time.Duration\<close> are modelled as \<open>int\<close>. The buffer indices
    are bounded by the capacity; the byte counters and the durations would need 2^63 bytes
    or 292 years to wrap, which is left out of the model.
  \<^item> \<open>time.Time\<close> is an \<open>int\<close>, the nanoseconds since Go's zero time; \<open>IsZero\<close> tests for 0.
  \<^item> The mutex and the condition variable are modelled by the granularity of the steps:
    one step is one stretch of code between two points where the lock is released
    (\<open>Unlock\<close>, \<open>Wait\<close>, return), or one call of \<open>Read\<close> or \<open>Write\<close> made with the lock
    released. A goroutine in \<open>cond.Wait()\<close> stays blocked until the other one calls
    \<open>cond.Signal()\<close> (Go's \<open>Wait\<close> has no spurious wake-ups).
  \<^item> \<open>Read\<close> and \<open>Write\<close> move their bytes at the moment they return. The slices of two
    calls that are under way at the same time do not overlap (lemma \<open>io_slices_disjoint\<close>).
  \<^item> A run-time panic (slice bounds out of range, integer division by zero) is a control
    point of its own; the program is dead once a goroutine has reached it.
  \<^item> \<open>time.Since\<close> and \<open>Time.Sub\<close> are the difference of two clock readings; Go's
    saturation at the largest \<open>Duration\<close> is left out with the wrap-around.
\<close>

subsection \<open>Data\<close>

type_synonym byte = "8 word"
type_synonym Time = int
type_synonym Duration = int

text \<open>
  Go errors: \<open>io.EOF\<close>, any other error of a reader or a writer, and the result of
  \<open>fmt.Errorf("<tag>: %w", err)\<close>.
\<close>

datatype error = EOF | Failure string | Errorf string error

record Buffer =
  buf :: "byte list"
  readIndex :: int
  ready :: int
  totalBytesRead :: int
  readError :: "error option"
  writeError :: "error option"
  timeStarted :: Time
  lastReadStarted :: Time
  lastWriteStarted :: Time
  timeSpentReading :: Duration
  timeSpentWriting :: Duration
  totalTimeSpent :: Duration

record Stats =
  BufferCapacity :: int
  BufferedBytes :: int
  BytesRead :: int
  TotalTime :: Duration
  TimeSpentReading :: Duration
  TimeSpentWriting :: Duration

definition IsZero :: "Time \<Rightarrow> bool" where
  "IsZero t = (t = 0)"

text \<open>\<open>New(size)\<close>: \<open>make([]byte, size)\<close> panics on a negative size (\<open>None\<close>).\<close>

definition New :: "int \<Rightarrow> Buffer option" where
  "New sz =
     (if sz < 0 then None
      else Some \<lparr> buf = replicate (nat sz) 0, readIndex = 0, ready = 0, totalBytesRead = 0,
                  readError = None, writeError = None, timeStarted = 0, lastReadStarted = 0,
                  lastWriteStarted = 0, timeSpentReading = 0, timeSpentWriting = 0,
                  totalTimeSpent = 0 \<rparr>)"

text \<open>\<open>len(b.buf)\<close>\<close>

definition cap :: "Buffer \<Rightarrow> int" where
  "cap b = int (length (buf b))"

subsection \<open>Stats\<close>

text \<open>\<open>Buffer.Stats\<close>, with the value of its single \<open>time.Now()\<close> as a parameter.\<close>

definition Buffer_Stats :: "Time \<Rightarrow> Buffer \<Rightarrow> Stats" where
  "Buffer_Stats now b =
     (let s = \<lparr> BufferCapacity = cap b, BufferedBytes = ready b, BytesRead = totalBytesRead b,
                 TotalTime = totalTimeSpent b, TimeSpentReading = timeSpentReading b,
                 TimeSpentWriting = timeSpentWriting b \<rparr>;
          s = (if \<not> IsZero (timeStarted b)
               then s\<lparr>TotalTime := TotalTime s + (now - timeStarted b)\<rparr> else s);
          s = (if \<not> IsZero (lastReadStarted b)
               then s\<lparr>TimeSpentReading := TimeSpentReading s + (now - lastReadStarted b)\<rparr>
               else s);
          s = (if \<not> IsZero (lastWriteStarted b)
               then s\<lparr>TimeSpentWriting := TimeSpentWriting s + (now - lastWriteStarted b)\<rparr>
               else s)
      in s)"

subsection \<open>The two goroutines and their environment\<close>

text \<open>
  The source is a script of the answers its \<open>Read\<close> calls will give: the bytes it has
  for the call and the error it reports with them. A call whose slice is shorter than
  the bytes at hand gets a slice-full with a nil error, and the rest stays at the head
  of the script. With the script exhausted, \<open>Read\<close> does not return.

  The sink answers its \<open>k\<close>-th \<open>Write\<close> call with \<open>(short, err)\<close>: it accepts all bytes of
  the slice but the last \<open>short\<close> ones and returns \<open>err\<close>. Both therefore return counts
  between 0 and the length of the slice they were given.
\<close>

type_synonym source = "(byte list \<times> error option) list"
type_synonym sink = "nat \<Rightarrow> nat \<times> error option"

text \<open>Where \<open>ReadFrom\<close> is.\<close>

datatype rpoint =
    R_Entry
  | R_Reading int int
  | R_Relock int "error option" Duration
  | R_Waiting
  | R_Signalled
  | R_Returned "error option"
  | R_Panicked

text \<open>
  \<open>R_Entry\<close>: called (or the goroutine created), the lock not yet taken.
  \<open>R_Reading lo hi\<close>: the lock released, inside \<open>r.Read(b.buf[lo:hi])\<close>.
  \<open>R_Relock n err dur\<close>: \<open>Read\<close> has returned \<open>(n, err)\<close> and \<open>dur\<close> is measured; the lock
  is not yet taken again.
  \<open>R_Waiting\<close>: inside \<open>b.cond.Wait()\<close>. \<open>R_Signalled\<close>: woken, the lock not yet taken again.
  \<open>R_Returned err\<close>: returned \<open>(sum, err)\<close>.
\<close>

text \<open>Where \<open>WriteTo\<close> is.\<close>

datatype wpoint =
    W_Entry
  | W_Writing int int
  | W_Relock int "error option" Duration
  | W_Waiting
  | W_Signalled
  | W_Returned "error option"
  | W_Panicked

record sys =
  shared :: Buffer
  rpoint :: rpoint
  rsum :: int
  wpoint :: wpoint
  wsum :: int
  source :: source
  sourced :: "byte list"
  sunk :: "byte list"
  rlog :: "nat list"
  wlog :: "byte list list"
  snaps :: "Stats list"
  clock :: Time

text \<open>
  \<open>rsum\<close> and \<open>wsum\<close> are the local \<open>sum\<close> of \<open>ReadFrom\<close> and of \<open>WriteTo\<close>. The rest
  is the record of what the environment has seen: \<open>sourced\<close>, the bytes the source has
  handed out; \<open>sunk\<close>, the bytes the sink has accepted; \<open>rlog\<close>, the length of the slice
  of each \<open>Read\<close> call; \<open>wlog\<close>, the slice of each \<open>Write\<close> call; \<open>snaps\<close>, the result
  of each \<open>Stats\<close> call; \<open>clock\<close>, the latest clock reading.
\<close>

definition upd :: "(Buffer \<Rightarrow> Buffer) \<Rightarrow> sys \<Rightarrow> sys" where
  "upd f s = s\<lparr>shared := f (shared s)\<rparr>"

text \<open>\<open>b.cond.Signal()\<close>, called by \<open>ReadFrom\<close> and by \<open>WriteTo\<close>.\<close>

definition signal_by_reader :: "sys \<Rightarrow> sys" where
  "signal_by_reader s = (if wpoint s = W_Waiting then s\<lparr>wpoint := W_Signalled\<rparr> else s)"

definition signal_by_writer :: "sys \<Rightarrow> sys" where
  "signal_by_writer s = (if rpoint s = R_Waiting then s\<lparr>rpoint := R_Signalled\<rparr> else s)"

text \<open>
  A slice expression \<open>a[lo:hi]\<close> on the storage panics unless \<open>0 \<le> lo \<le> hi \<le> cap(a)\<close>.
\<close>

definition slice_ok :: "Buffer \<Rightarrow> int \<Rightarrow> int \<Rightarrow> bool" where
  "slice_ok b lo hi = (0 \<le> lo \<and> lo \<le> hi \<and> hi \<le> cap b)"

subsection \<open>ReadFrom\<close>

text \<open>The bounds of \<open>b.buf[b.readIndex:until]\<close>.\<close>

definition free_slice :: "Buffer \<Rightarrow> int \<times> int" where
  "free_slice b =
     (let until = (if readIndex b > ready b then cap b else readIndex b - ready b + cap b)
      in (readIndex b, until))"

text \<open>
  The top of the outer loop: the slice, \<open>lastReadStarted\<close>, \<open>Unlock\<close>, and \<open>Read\<close> is called.
\<close>

definition ReadFrom_top :: "Time \<Rightarrow> sys \<Rightarrow> sys" where
  "ReadFrom_top now s =
     (case free_slice (shared s) of (lo, hi) \<Rightarrow>
        if \<not> slice_ok (shared s) lo hi then s\<lparr>rpoint := R_Panicked\<rparr>
        else (upd (\<lambda>b. b\<lparr>lastReadStarted := now\<rparr>) s)
               \<lparr>rpoint := R_Reading lo hi, rlog := rlog s @ [nat (hi - lo)]\<rparr>)"

text \<open>The inner loop \<open>for b.ready == len(b.buf)\<close>, at its test.\<close>

definition ReadFrom_full :: "Time \<Rightarrow> sys \<Rightarrow> sys" where
  "ReadFrom_full now s =
     (if ready (shared s) = cap (shared s) then s\<lparr>rpoint := R_Waiting\<rparr>
      else ReadFrom_top now s)"

text \<open>From the call to the first \<open>Unlock\<close>; \<open>time.Now()\<close> reads \<open>t0\<close>, then \<open>t1\<close>.\<close>

definition ReadFrom_entry :: "Time \<Rightarrow> Time \<Rightarrow> sys \<Rightarrow> sys" where
  "ReadFrom_entry t0 t1 s =
     ReadFrom_top t1
       (upd (\<lambda>b. if IsZero (timeStarted b) then b\<lparr>timeStarted := t0\<rparr> else b) s)"

text \<open>
  \<open>n, err := r.Read(buf)\<close> returns, then \<open>dur\<close> and \<open>sum\<close>. \<open>answer l src\<close> is what the
  source gives for a slice of length \<open>l\<close>: the bytes, the error, and the script that is
  left. The bytes are in the storage, from \<open>lo\<close> on.
\<close>

definition copy_at :: "'a list \<Rightarrow> nat \<Rightarrow> 'a list \<Rightarrow> 'a list" where
  "copy_at xs lo ys = take lo xs @ ys @ drop (lo + length ys) xs"

fun answer :: "nat \<Rightarrow> source \<Rightarrow> (byte list \<times> error option \<times> source) option" where
  "answer l [] = None"
| "answer l ((d, e) # rest) =
     (if length d \<le> l then Some (d, e, rest)
      else Some (take l d, None, (drop l d, e) # rest))"

definition ReadFrom_read :: "Time \<Rightarrow> int \<Rightarrow> int \<Rightarrow> sys \<Rightarrow> sys option" where
  "ReadFrom_read now lo hi s =
     (case answer (nat (hi - lo)) (source s) of
        None \<Rightarrow> None
      | Some (chunk, err, src) \<Rightarrow>
          let n = int (length chunk);
              dur = now - lastReadStarted (shared s)
          in Some ((upd (\<lambda>b. b\<lparr>buf := copy_at (buf b) (nat lo) chunk\<rparr>) s)
                     \<lparr>source := src,
                      sourced := sourced s @ chunk,
                      rsum := rsum s + n,
                      rpoint := R_Relock n err dur\<rparr>))"

text \<open>
  From the \<open>Lock\<close> after \<open>Read\<close> to the next \<open>Unlock\<close>, \<open>Wait\<close> or return: the
  bookkeeping up to \<open>Signal\<close> first.
\<close>

definition ReadFrom_commit :: "int \<Rightarrow> Duration \<Rightarrow> sys \<Rightarrow> sys" where
  "ReadFrom_commit n dur s =
     signal_by_reader
       (upd (\<lambda>b. b\<lparr>readIndex := (readIndex b + n) smod cap b,
                    ready := ready b + n,
                    totalBytesRead := totalBytesRead b + n,
                    timeSpentReading := timeSpentReading b + dur,
                    lastReadStarted := 0\<rparr>) s)"

definition ReadFrom_relock :: "Time \<Rightarrow> int \<Rightarrow> error option \<Rightarrow> Duration \<Rightarrow> sys \<Rightarrow> sys" where
  "ReadFrom_relock now n err dur s =
     (if cap (shared s) = 0 then s\<lparr>rpoint := R_Panicked\<rparr>
      else
        let s = ReadFrom_commit n dur s
        in case err of
             Some e \<Rightarrow>
               (upd (\<lambda>b. b\<lparr>readError := Some e\<rparr>) s)
                 \<lparr>rpoint := R_Returned (if e = EOF then None else Some e)\<rparr>
           | None \<Rightarrow>
               (case writeError (shared s) of
                  Some we \<Rightarrow> s\<lparr>rpoint := R_Returned (Some we)\<rparr>
                | None \<Rightarrow> ReadFrom_full now s))"

text \<open>From the return of \<open>Wait\<close> to the next \<open>Unlock\<close>, \<open>Wait\<close> or return.\<close>

definition ReadFrom_woken :: "Time \<Rightarrow> sys \<Rightarrow> sys" where
  "ReadFrom_woken now s =
     (case writeError (shared s) of
        Some we \<Rightarrow> s\<lparr>rpoint := R_Returned (Some we)\<rparr>
      | None \<Rightarrow> ReadFrom_full now s)"

subsection \<open>WriteTo\<close>

definition maxWrite :: "Buffer \<Rightarrow> int" where
  "maxWrite b = (let m = cap b div 8 in if m < 1 then 1 else m)"

text \<open>
  The bounds of \<open>b.buf[b.readIndex-b.ready : b.readIndex]\<close> or of
  \<open>b.buf[b.readIndex-b.ready+len(b.buf):]\<close>.
\<close>

definition filled_slice :: "Buffer \<Rightarrow> int \<times> int" where
  "filled_slice b =
     (if readIndex b - ready b \<ge> 0 then (readIndex b - ready b, readIndex b)
      else (readIndex b - ready b + cap b, cap b))"

text \<open>
  The layout of the ring. \<open>fillStart\<close> is the index of the next byte to be consumed, where
  the slice of \<open>WriteTo\<close> starts; \<open>free_start\<close> is where the slice offered to \<open>Read\<close>
  starts. \<open>spec_free_start\<close> is the start of the free region in the specification's words:
  \<open>(fillStart - filled) mod C\<close>.
\<close>

definition fillStart :: "Buffer \<Rightarrow> int" where
  "fillStart b = fst (filled_slice b)"

definition free_start :: "Buffer \<Rightarrow> int" where
  "free_start b = fst (free_slice b)"

definition spec_free_start :: "Buffer \<Rightarrow> int" where
  "spec_free_start b = (fillStart b - ready b) mod cap b"

text \<open>
  A return of \<open>WriteTo\<close>: the deferred function stops the clock of the total timer.
\<close>

definition WriteTo_return :: "Time \<Rightarrow> error option \<Rightarrow> sys \<Rightarrow> sys" where
  "WriteTo_return now err s =
     (upd (\<lambda>b. b\<lparr>totalTimeSpent := totalTimeSpent b + (now - timeStarted b),
                  timeStarted := 0\<rparr>) s)
       \<lparr>wpoint := W_Returned err\<rparr>"

text \<open>
  The top of the outer loop, which is the test of the inner loop \<open>for b.ready == 0\<close>.
\<close>

definition WriteTo_top :: "Time \<Rightarrow> sys \<Rightarrow> sys" where
  "WriteTo_top now s =
     (if ready (shared s) = 0 then
        (case readError (shared s) of
           Some e \<Rightarrow>
             WriteTo_return now (if e = EOF then None else Some (Errorf ''read error'' e)) s
         | None \<Rightarrow> s\<lparr>wpoint := W_Waiting\<rparr>)
      else
        (case filled_slice (shared s) of (lo, hi) \<Rightarrow>
           if \<not> slice_ok (shared s) lo hi then s\<lparr>wpoint := W_Panicked\<rparr>
           else (upd (\<lambda>b. b\<lparr>lastWriteStarted := now\<rparr>) s)\<lparr>wpoint := W_Writing lo hi\<rparr>))"

definition WriteTo_entry :: "Time \<Rightarrow> Time \<Rightarrow> sys \<Rightarrow> sys" where
  "WriteTo_entry t0 t1 s =
     WriteTo_top t1
       (upd (\<lambda>b. if IsZero (timeStarted b) then b\<lparr>timeStarted := t0\<rparr> else b) s)"

text \<open>
  The slice is cut to \<open>maxWrite\<close>, \<open>n, err := w.Write(buf)\<close> returns, then \<open>dur\<close> and \<open>sum\<close>.
  \<open>window xs lo hi\<close> is what the slice \<open>xs[lo:hi]\<close> shows, and \<open>accept snk k p\<close> what the
  sink takes of \<open>p\<close> in its \<open>k\<close>-th call, with the error it returns.
\<close>

definition window :: "'a list \<Rightarrow> int \<Rightarrow> int \<Rightarrow> 'a list" where
  "window xs lo hi = take (nat (hi - lo)) (drop (nat lo) xs)"

definition accept :: "sink \<Rightarrow> nat \<Rightarrow> byte list \<Rightarrow> byte list \<times> error option" where
  "accept snk k p = (case snk k of (short, err) \<Rightarrow> (take (length p - short) p, err))"

definition WriteTo_write :: "sink \<Rightarrow> Time \<Rightarrow> int \<Rightarrow> int \<Rightarrow> sys \<Rightarrow> sys" where
  "WriteTo_write snk now lo hi s =
     (let hi = (if hi - lo > maxWrite (shared s) then lo + maxWrite (shared s) else hi);
          p = window (buf (shared s)) lo hi
      in case accept snk (length (wlog s)) p of (accepted, err) \<Rightarrow>
           let n = int (length accepted);
               dur = now - lastWriteStarted (shared s)
           in s\<lparr>wlog := wlog s @ [p],
                 sunk := sunk s @ accepted,
                 wsum := wsum s + n,
                 wpoint := W_Relock n err dur\<rparr>)"

text \<open>
  From the \<open>Lock\<close> after \<open>Write\<close> to the next \<open>Unlock\<close>, \<open>Wait\<close> or return: the
  bookkeeping up to \<open>Signal\<close> first.
\<close>

definition WriteTo_commit :: "int \<Rightarrow> Duration \<Rightarrow> sys \<Rightarrow> sys" where
  "WriteTo_commit n dur s =
     signal_by_writer
       (upd (\<lambda>b. b\<lparr>ready := ready b - n,
                    lastWriteStarted := 0,
                    timeSpentWriting := timeSpentWriting b + dur\<rparr>) s)"

definition WriteTo_relock :: "Time \<Rightarrow> int \<Rightarrow> error option \<Rightarrow> Duration \<Rightarrow> sys \<Rightarrow> sys" where
  "WriteTo_relock now n err dur s =
     (let s = WriteTo_commit n dur s
      in case err of
           Some e \<Rightarrow>
             WriteTo_return now (Some (Errorf ''write error'' e))
               (upd (\<lambda>b. b\<lparr>writeError := Some (Errorf ''write error'' e)\<rparr>) s)
         | None \<Rightarrow> WriteTo_top now s)"

definition WriteTo_woken :: "Time \<Rightarrow> sys \<Rightarrow> sys" where
  "WriteTo_woken now s = WriteTo_top now s"

subsection \<open>Runs\<close>

text \<open>
  What can happen next, with the clock readings taken in it. \<open>Reader_locks\<close> and
  \<open>Writer_locks\<close> are the goroutine getting the lock, at its entry (two readings), after
  its I/O call or after a wake-up. \<open>Stats_called\<close> is a call of \<open>Stats\<close> by a third
  goroutine.
\<close>

datatype event =
    Reader_locks Time Time
  | Read_returns Time
  | Writer_locks Time Time
  | Write_returns Time
  | Stats_called Time

fun first_reading :: "event \<Rightarrow> Time" where
  "first_reading (Reader_locks t0 t1) = t0"
| "first_reading (Read_returns t) = t"
| "first_reading (Writer_locks t0 t1) = t0"
| "first_reading (Write_returns t) = t"
| "first_reading (Stats_called t) = t"

fun last_reading :: "event \<Rightarrow> Time" where
  "last_reading (Reader_locks t0 t1) = t1"
| "last_reading (Read_returns t) = t"
| "last_reading (Writer_locks t0 t1) = t1"
| "last_reading (Write_returns t) = t"
| "last_reading (Stats_called t) = t"

text \<open>The clock never reads the zero time and never runs backwards.\<close>

definition timely :: "event \<Rightarrow> sys \<Rightarrow> bool" where
  "timely ev s =
     (0 < first_reading ev \<and> clock s \<le> first_reading ev \<and> first_reading ev \<le> last_reading ev)"

definition crashed :: "sys \<Rightarrow> bool" where
  "crashed s = (rpoint s = R_Panicked \<or> wpoint s = W_Panicked)"

fun act :: "sink \<Rightarrow> event \<Rightarrow> sys \<Rightarrow> sys option" where
  "act snk (Reader_locks t0 t1) s =
     (case rpoint s of
        R_Entry \<Rightarrow> Some (ReadFrom_entry t0 t1 s)
      | R_Relock n err dur \<Rightarrow> Some (ReadFrom_relock t1 n err dur s)
      | R_Signalled \<Rightarrow> Some (ReadFrom_woken t1 s)
      | _ \<Rightarrow> None)"
| "act snk (Read_returns t) s =
     (case rpoint s of
        R_Reading lo hi \<Rightarrow> ReadFrom_read t lo hi s
      | _ \<Rightarrow> None)"
| "act snk (Writer_locks t0 t1) s =
     (case wpoint s of
        W_Entry \<Rightarrow> Some (WriteTo_entry t0 t1 s)
      | W_Relock n err dur \<Rightarrow> Some (WriteTo_relock t1 n err dur s)
      | W_Signalled \<Rightarrow> Some (WriteTo_woken t1 s)
      | _ \<Rightarrow> None)"
| "act snk (Write_returns t) s =
     (case wpoint s of
        W_Writing lo hi \<Rightarrow> Some (WriteTo_write snk t lo hi s)
      | _ \<Rightarrow> None)"
| "act snk (Stats_called t) s =
     Some (s\<lparr>snaps := snaps s @ [Buffer_Stats t (shared s)]\<rparr>)"

text \<open>
  One step: the clock has moved on to the readings of the event, and the goroutine that
  the event names runs up to its next control point.
\<close>

definition step :: "sink \<Rightarrow> event \<Rightarrow> sys \<Rightarrow> sys option" where
  "step snk ev s =
     (if crashed s \<or> \<not> timely ev s then None
      else act snk ev (s\<lparr>clock := last_reading ev\<rparr>))"

fun exec :: "sink \<Rightarrow> event list \<Rightarrow> sys \<Rightarrow> sys option" where
  "exec snk [] s = Some s"
| "exec snk (ev # evs) s = (case step snk ev s of None \<Rightarrow> None | Some s' \<Rightarrow> exec snk evs s')"

text \<open>
  \<open>Copy(w, r)\<close> on buffer \<open>b\<close>: \<open>go b.ReadFrom(r)\<close> and \<open>b.WriteTo(w)\<close>, both at their entry.
  The result of \<open>Copy\<close> is the one of \<open>WriteTo\<close>.
\<close>

definition Copy :: "Buffer \<Rightarrow> source \<Rightarrow> sys" where
  "Copy b src =
     \<lparr> shared = b, rpoint = R_Entry, rsum = 0, wpoint = W_Entry, wsum = 0, source = src,
       sourced = [], sunk = [], rlog = [], wlog = [], snaps = [], clock = 0 \<rparr>"

definition Copy_result :: "sys \<Rightarrow> (int \<times> error option) option" where
  "Copy_result s = (case wpoint s of W_Returned err \<Rightarrow> Some (wsum s, err) | _ \<Rightarrow> None)"

definition ReadFrom_result :: "sys \<Rightarrow> (int \<times> error option) option" where
  "ReadFrom_result s = (case rpoint s of R_Returned err \<Rightarrow> Some (rsum s, err) | _ \<Rightarrow> None)"

text \<open>A sink that accepts every slice in full and never fails.\<close>

definition full_sink :: sink where
  "full_sink k = (0, None)"

subsection \<open>Invariants of a run\<close>

text \<open>
  The ring: indices in range, and what each goroutine holds at its control point. The
  arguments are \<open>readIndex\<close>, \<open>ready\<close> and the capacity.
\<close>

fun reader_ok :: "int \<Rightarrow> int \<Rightarrow> int \<Rightarrow> rpoint \<Rightarrow> bool" where
  "reader_ok ri rd c R_Entry = (rd = 0)"
| "reader_ok ri rd c (R_Reading lo hi) = (lo = ri \<and> lo < hi \<and> hi \<le> c \<and> rd + (hi - lo) \<le> c)"
| "reader_ok ri rd c (R_Relock n e d) = (0 \<le> n \<and> ri + n \<le> c \<and> rd + n \<le> c)"
| "reader_ok ri rd c R_Panicked = False"
| "reader_ok ri rd c _ = True"

fun writer_ok :: "int \<Rightarrow> int \<Rightarrow> int \<Rightarrow> wpoint \<Rightarrow> bool" where
  "writer_ok ri rd c (W_Writing lo hi) =
     (lo = (ri - rd) mod c \<and> lo < hi \<and> hi \<le> c \<and> hi - lo \<le> rd)"
| "writer_ok ri rd c (W_Relock n e d) = (0 \<le> n \<and> n \<le> rd \<and> (ri - rd) mod c + n \<le> c)"
| "writer_ok ri rd c W_Panicked = False"
| "writer_ok ri rd c _ = True"

definition ring_inv :: "sys \<Rightarrow> bool" where
  "ring_inv s =
     (0 < cap (shared s) \<and> 0 \<le> readIndex (shared s) \<and> readIndex (shared s) < cap (shared s) \<and>
      0 \<le> ready (shared s) \<and> ready (shared s) \<le> cap (shared s) \<and>
      reader_ok (readIndex (shared s)) (ready (shared s)) (cap (shared s)) (rpoint s) \<and>
      writer_ok (readIndex (shared s)) (ready (shared s)) (cap (shared s)) (wpoint s))"

text \<open>The slices that were passed to \<open>Read\<close> and to \<open>Write\<close>.\<close>

definition log_inv :: "sys \<Rightarrow> bool" where
  "log_inv s =
     ((\<forall>l \<in> set (rlog s). 1 \<le> l \<and> int l \<le> cap (shared s)) \<and>
      (\<forall>p \<in> set (wlog s). 1 \<le> length p \<and> int (length p) \<le> maxWrite (shared s)))"

text \<open>
  The bytes: \<open>Read\<close> and \<open>Write\<close> have moved the bytes that the bookkeeping has not
  yet counted.
\<close>

fun r_pending :: "rpoint \<Rightarrow> int" where
  "r_pending (R_Relock n e d) = n"
| "r_pending _ = 0"

fun w_pending :: "wpoint \<Rightarrow> int" where
  "w_pending (W_Relock n e d) = n"
| "w_pending _ = 0"

definition data_inv :: "sys \<Rightarrow> bool" where
  "data_inv s =
     (totalBytesRead (shared s) + r_pending (rpoint s) = int (length (sourced s)) \<and>
      ready (shared s) \<le> totalBytesRead (shared s) \<and>
      readIndex (shared s) = totalBytesRead (shared s) mod cap (shared s) \<and>
      int (length (sunk s)) =
        totalBytesRead (shared s) - ready (shared s) + w_pending (wpoint s) \<and>
      prefix (sunk s) (sourced s) \<and>
      (\<forall>i. totalBytesRead (shared s) - ready (shared s) \<le> i \<and> i < int (length (sourced s)) \<longrightarrow>
           buf (shared s) ! nat (i mod cap (shared s)) = sourced s ! nat i) \<and>
      rsum s = int (length (sourced s)) \<and> wsum s = int (length (sunk s)))"

text \<open>
  Who waits, who has returned, and which error is recorded. The arguments of
  \<open>returned_ok\<close> are the error that \<open>WriteTo\<close> has returned, \<open>ready\<close>, \<open>readError\<close> and
  \<open>writeError\<close>.
\<close>

fun returned_ok :: "error option \<Rightarrow> int \<Rightarrow> error option \<Rightarrow> error option \<Rightarrow> bool" where
  "returned_ok None rd re we = (rd = 0 \<and> re = Some EOF \<and> we = None)"
| "returned_ok (Some e) rd re we =
     (we = Some e \<or>
      (we = None \<and> rd = 0 \<and>
       (case re of None \<Rightarrow> False | Some e' \<Rightarrow> e' \<noteq> EOF \<and> e = Errorf ''read error'' e')))"

definition sync_inv :: "sys \<Rightarrow> bool" where
  "sync_inv s =
     ((wpoint s = W_Waiting \<longrightarrow> ready (shared s) = 0 \<and> readError (shared s) = None) \<and>
      (rpoint s = R_Waiting \<longrightarrow>
         ready (shared s) = cap (shared s) \<and> writeError (shared s) = None) \<and>
      (rpoint s = R_Entry \<longrightarrow> wpoint s = W_Entry \<or> wpoint s = W_Waiting) \<and>
      (\<forall>e. readError (shared s) = Some e \<longrightarrow>
           rpoint s = R_Returned (if e = EOF then None else Some e)) \<and>
      (\<forall>e. writeError (shared s) = Some e \<longrightarrow> wpoint s = W_Returned (Some e)) \<and>
      (\<forall>r. rpoint s = R_Returned r \<longrightarrow>
           readError (shared s) \<noteq> None \<or> writeError (shared s) \<noteq> None) \<and>
      (\<forall>r. wpoint s = W_Returned r \<longrightarrow>
           returned_ok r (ready (shared s)) (readError (shared s)) (writeError (shared s))))"

text \<open>The clock and the snapshots.\<close>

fun reader_timed :: "Time \<Rightarrow> Time \<Rightarrow> rpoint \<Rightarrow> bool" where
  "reader_timed now started (R_Reading lo hi) = (started \<le> now)"
| "reader_timed now started (R_Relock n e d) = (0 \<le> d)"
| "reader_timed now started _ = True"

fun writer_timed :: "Time \<Rightarrow> Time \<Rightarrow> wpoint \<Rightarrow> bool" where
  "writer_timed now started (W_Writing lo hi) = (started \<le> now)"
| "writer_timed now started (W_Relock n e d) = (0 \<le> d)"
| "writer_timed now started _ = True"

definition time_inv :: "sys \<Rightarrow> bool" where
  "time_inv s =
     (0 \<le> clock s \<and>
      reader_timed (clock s) (lastReadStarted (shared s)) (rpoint s) \<and>
      writer_timed (clock s) (lastWriteStarted (shared s)) (wpoint s))"

text \<open>
  \<open>current s\<close> is what \<open>Stats\<close> would return now; \<open>snap_le\<close> compares the bytes read and
  the total time of two snapshots.
\<close>

definition current :: "sys \<Rightarrow> Stats" where
  "current s = Buffer_Stats (clock s) (shared s)"

definition snap_le :: "Stats \<Rightarrow> Stats \<Rightarrow> bool" where
  "snap_le x y = (BytesRead x \<le> BytesRead y \<and> TotalTime x \<le> TotalTime y)"

definition snap_ok :: "int \<Rightarrow> Stats \<Rightarrow> bool" where
  "snap_ok c x = (0 \<le> BufferedBytes x \<and> BufferedBytes x \<le> c \<and> BufferCapacity x = c)"

definition snap_inv :: "sys \<Rightarrow> bool" where
  "snap_inv s =
     (sorted_wrt snap_le (snaps s) \<and>
      list_all (\<lambda>x. snap_le x (current s) \<and> snap_ok (cap (shared s)) x) (snaps s))"

definition reading_times :: "sys \<Rightarrow> Duration list" where
  "reading_times s = map TimeSpentReading (snaps s)"

definition writing_times :: "sys \<Rightarrow> Duration list" where
  "writing_times s = map TimeSpentWriting (snaps s)"

subsection \<open>A source that ends, a sink that does not fail\<close>

text \<open>
  The source delivers its bytes without an error and reports \<open>io.EOF\<close>, with its last
  bytes or after them. The sink never returns an error.
\<close>

definition never_fails :: "sink \<Rightarrow> bool" where
  "never_fails snk = (\<forall>k. snd (snk k) = None)"

fun eof_script :: "source \<Rightarrow> bool" where
  "eof_script [] = False"
| "eof_script [(d, e)] = (e = Some EOF)"
| "eof_script ((d, e) # rest) = (e = None \<and> eof_script rest)"

fun calm_reader :: "rpoint \<Rightarrow> source \<Rightarrow> error option \<Rightarrow> bool" where
  "calm_reader (R_Relock n (Some e) d) src re = (e = EOF \<and> src = [] \<and> re = None)"
| "calm_reader (R_Returned r) src re = (r = None \<and> src = [] \<and> re = Some EOF)"
| "calm_reader _ src re = (eof_script src \<and> re = None)"

fun calm_writer :: "wpoint \<Rightarrow> bool" where
  "calm_writer (W_Relock n e d) = (e = None)"
| "calm_writer (W_Returned r) = (r = None)"
| "calm_writer _ = True"

definition calm_inv :: "sys \<Rightarrow> bool" where
  "calm_inv s =
     (writeError (shared s) = None \<and> calm_writer (wpoint s) \<and>
      calm_reader (rpoint s) (source s) (readError (shared s)))"

text \<open>
  What is left to do: the answers and the bytes that the source still has, the bytes
  that the sink has not yet got, and the way of each goroutine to its next I/O call.
\<close>

definition src_left :: "source \<Rightarrow> nat" where
  "src_left src = (\<Sum>x\<leftarrow>src. 1 + length (fst x))"

fun r_rank :: "rpoint \<Rightarrow> nat" where
  "r_rank R_Entry = 1"
| "r_rank (R_Relock n e d) = 2"
| "r_rank R_Signalled = 1"
| "r_rank _ = 0"

fun w_rank :: "wpoint \<Rightarrow> nat" where
  "w_rank W_Entry = 1"
| "w_rank (W_Relock n e d) = 2"
| "w_rank W_Signalled = 1"
| "w_rank _ = 0"

definition left :: "sys \<Rightarrow> nat" where
  "left s =
     6 * src_left (source s) + 3 * (length (sourced s) - length (sunk s)) +
     r_rank (rpoint s) + w_rank (wpoint s)"

text \<open>
  A step that can be taken while \<open>WriteTo\<close> has not returned: the writer's, or the
  reader's when the writer waits.
\<close>

definition next_event :: "sys \<Rightarrow> event" where
  "next_event s =
     (let t = max 1 (clock s) in
      case wpoint s of
        W_Waiting \<Rightarrow> (case rpoint s of R_Reading lo hi \<Rightarrow> Read_returns t | _ \<Rightarrow> Reader_locks t t)
      | W_Writing lo hi \<Rightarrow> Write_returns t
      | _ \<Rightarrow> Writer_locks t t)"

fun is_Stats :: "event \<Rightarrow> bool" where
  "is_Stats (Stats_called t) = True"
| "is_Stats _ = False"

definition moves :: "event list \<Rightarrow> nat" where
  "moves evs = length (filter (\<lambda>ev. \<not> is_Stats ev) evs)"

subsection \<open>A transfer, step by step\<close>

text \<open>
  Three bytes and \<open>io.EOF\<close> through a buffer of two bytes, into a sink that takes what it
  is given: the reader fills the buffer and waits, the writer drains it one byte at a
  time (\<open>maxWrite\<close> is 1), and the third byte wraps around to index 0.
\<close>

definition demo_src :: source where
  "demo_src = [([97, 98], None), ([99], Some EOF)]"

definition demo_buf :: Buffer where
  "demo_buf =
     \<lparr> buf = [0, 0], readIndex = 0, ready = 0, totalBytesRead = 0, readError = None,
       writeError = None, timeStarted = 0, lastReadStarted = 0, lastWriteStarted = 0,
       timeSpentReading = 0, timeSpentWriting = 0, totalTimeSpent = 0 \<rparr>"

definition demo_run :: "event list" where
  "demo_run =
     [Reader_locks 10 11, Read_returns 15, Reader_locks 16 16,
      Writer_locks 17 18, Write_returns 20, Writer_locks 21 21,
      Reader_locks 22 22, Read_returns 25, Reader_locks 26 26,
      Write_returns 27, Writer_locks 28 28,
      Write_returns 30, Writer_locks 31 31]"

definition demo_final :: sys where
  "demo_final =
     \<lparr> shared =
         \<lparr> buf = [99, 98], readIndex = 1, ready = 0, totalBytesRead = 3,
           readError = Some EOF, writeError = None, timeStarted = 0, lastReadStarted = 0,
           lastWriteStarted = 0, timeSpentReading = 7, timeSpentWriting = 10,
           totalTimeSpent = 21 \<rparr>,
       rpoint = R_Returned None, rsum = 3, wpoint = W_Returned None, wsum = 3,
       source = [], sourced = [97, 98, 99], sunk = [97, 98, 99],
       rlog = [2, 1], wlog = [[97], [98], [99]], snaps = [], clock = 31 \<rparr>"

text \<open>
  The same source into a sink whose \<open>Write\<close> fails at once, having accepted nothing:
  the buffer is full and the reader waits when the writer fails.
\<close>

definition dead_sink :: sink where
  "dead_sink k = (1, Some (Failure ''broken pipe''))"

definition dead_run :: "event list" where
  "dead_run =
     [Reader_locks 10 11, Read_returns 15, Reader_locks 16 16, Writer_locks 17 18]"

text \<open>
  A source that hands out one byte at a time, into the failing sink: this time the
  reader is back from a \<open>Read\<close> when the writer fails.
\<close>

definition slow_src :: source where
  "slow_src = [([97], None), ([98], None), ([99], Some EOF)]"

definition slow_run :: "event list" where
  "slow_run =
     [Reader_locks 10 11, Read_returns 15, Reader_locks 16 16, Writer_locks 17 18,
      Read_returns 19, Write_returns 20, Writer_locks 21 21]"

text \<open>One byte in a buffer of four.\<close>

definition four_buf :: Buffer where
  "four_buf =
     \<lparr> buf = [0, 0, 0, 0], readIndex = 0, ready = 0, totalBytesRead = 0, readError = None,
       writeError = None, timeStarted = 0, lastReadStarted = 0, lastWriteStarted = 0,
       timeSpentReading = 0, timeSpentWriting = 0, totalTimeSpent = 0 \<rparr>"

definition four_run :: "event list" where
  "four_run = [Reader_locks 10 11, Read_returns 15, Reader_locks 16 16]"

definition four_state :: sys where
  "four_state =
     \<lparr> shared =
         \<lparr> buf = [97, 0, 0, 0], readIndex = 1, ready = 1, totalBytesRead = 1,
           readError = None, writeError = None, timeStarted = 10, lastReadStarted = 16,
           lastWriteStarted = 0, timeSpentReading = 4, timeSpentWriting = 0,
           totalTimeSpent = 0 \<rparr>,
       rpoint = R_Reading 1 4, rsum = 1, wpoint = W_Entry, wsum = 0,
       source = [([98], None), ([99], Some EOF)], sourced = [97], sunk = [],
       rlog = [4, 3], wlog = [], snaps = [], clock = 16 \<rparr>"

definition dead_writing :: sys where
  "dead_writing =
     \<lparr> shared =
         \<lparr> buf = [97, 98], readIndex = 0, ready = 2, totalBytesRead = 2,
           readError = None, writeError = None, timeStarted = 10, lastReadStarted = 0,
           lastWriteStarted = 18, timeSpentReading = 4, timeSpentWriting = 0,
           totalTimeSpent = 0 \<rparr>,
       rpoint = R_Waiting, rsum = 2, wpoint = W_Writing 0 2, wsum = 0,
       source = [([99], Some EOF)], sourced = [97, 98], sunk = [], rlog = [2],
       wlog = [], snaps = [], clock = 18 \<rparr>"

definition dead_failed :: sys where
  "dead_failed =
     dead_writing
       \<lparr> wpoint := W_Relock 0 (Some (Failure ''broken pipe'')) 2, wlog := [[97]], clock := 20 \<rparr>"

definition dead_returned :: sys where
  "dead_returned =
     \<lparr> shared =
         \<lparr> buf = [97, 98], readIndex = 0, ready = 2, totalBytesRead = 2,
           readError = None,
           writeError = Some (Errorf ''write error'' (Failure ''broken pipe'')),
           timeStarted = 0, lastReadStarted = 0, lastWriteStarted = 0,
           timeSpentReading = 4, timeSpentWriting = 2, totalTimeSpent = 11 \<rparr>,
       rpoint = R_Signalled, rsum = 2,
       wpoint = W_Returned (Some (Errorf ''write error'' (Failure ''broken pipe''))),
       wsum = 0, source = [([99], Some EOF)], sourced = [97, 98], sunk = [],
       rlog = [2], wlog = [[97]], snaps = [], clock = 21 \<rparr>"

definition slow_state :: sys where
  "slow_state =
     \<lparr> shared =
         \<lparr> buf = [97, 98], readIndex = 1, ready = 1, totalBytesRead = 1,
           readError = None,
           writeError = Some (Errorf ''write error'' (Failure ''broken pipe'')),
           timeStarted = 0, lastReadStarted = 16, lastWriteStarted = 0,
           timeSpentReading = 4, timeSpentWriting = 2, totalTimeSpent = 11 \<rparr>,
       rpoint = R_Relock 1 None 3, rsum = 2,
       wpoint = W_Returned (Some (Errorf ''write error'' (Failure ''broken pipe''))),
       wsum = 0, source = [([99], Some EOF)], sourced = [97, 98], sunk = [],
       rlog = [2, 1], wlog = [[97]], snaps = [], clock = 21 \<rparr>"

text \<open>
  Snapshots around the end of a \<open>Read\<close> and around the end of a \<open>Write\<close>: \<open>Stats\<close> is called
  after the I/O call has returned and before its goroutine has the lock again.
\<close>

definition stats_run :: "event list" where
  "stats_run =
     [Reader_locks 10 11, Read_returns 15, Stats_called 20, Reader_locks 21 21, Stats_called 22,
      Writer_locks 23 24, Write_returns 26, Stats_called 30, Writer_locks 31 31, Stats_called 32]"

section \<open>Proofs\<close>

subsection \<open>Steps preserve what their parts preserve\<close>

lemma smod_nonneg: "0 \<le> a \<Longrightarrow> 0 < b \<Longrightarrow> a smod b = a mod (b::int)"
  by (simp add: smod_int_alt_def sgn_if)

lemma length_copy_at: "lo + length ys \<le> length xs \<Longrightarrow> length (copy_at xs lo ys) = length xs"
  by (simp add: copy_at_def)

lemma ReadFrom_woken_rpoint: "ReadFrom_woken t (s\<lparr>rpoint := x\<rparr>) = ReadFrom_woken t s"
  by (simp add: ReadFrom_woken_def ReadFrom_full_def ReadFrom_top_def upd_def split: option.splits prod.splits)

lemma WriteTo_top_wpoint: "WriteTo_top t (s\<lparr>wpoint := x\<rparr>) = WriteTo_top t s"
  by (simp add: WriteTo_top_def WriteTo_return_def upd_def split: option.splits prod.splits)

lemma ReadFrom_relock_None:
  "cap (shared s) \<noteq> 0 \<Longrightarrow>
   ReadFrom_relock t n None dur s = ReadFrom_woken t ((ReadFrom_commit n dur s)\<lparr>rpoint := R_Signalled\<rparr>)"
  by (simp add: ReadFrom_relock_def ReadFrom_woken_rpoint) (simp add: ReadFrom_woken_def Let_def)

lemma WriteTo_relock_None:
  "WriteTo_relock t n None dur s = WriteTo_top t ((WriteTo_commit n dur s)\<lparr>wpoint := W_Signalled\<rparr>)"
  by (simp add: WriteTo_relock_def WriteTo_top_wpoint Let_def)

lemma step_preserves:
  assumes clk: "\<And>s t. I s \<Longrightarrow> clock s \<le> t \<Longrightarrow> 0 < t \<Longrightarrow> I (s\<lparr>clock := t\<rparr>)"
    and pos: "\<And>s. I s \<Longrightarrow> 0 < cap (shared s)"
    and r_entry: "\<And>s t0 t1. I s \<Longrightarrow> rpoint s = R_Entry \<Longrightarrow> 0 < t0 \<Longrightarrow> t0 \<le> t1 \<Longrightarrow> clock s = t1
        \<Longrightarrow> I (ReadFrom_entry t0 t1 s)"
    and r_read: "\<And>s t lo hi s'. I s \<Longrightarrow> rpoint s = R_Reading lo hi \<Longrightarrow> 0 < t \<Longrightarrow> clock s = t
        \<Longrightarrow> ReadFrom_read t lo hi s = Some s' \<Longrightarrow> I s'"
    and r_commit: "\<And>s n dur. I s \<Longrightarrow> rpoint s = R_Relock n None dur
        \<Longrightarrow> I ((ReadFrom_commit n dur s)\<lparr>rpoint := R_Signalled\<rparr>)"
    and r_error: "\<And>s n e dur. I s \<Longrightarrow> rpoint s = R_Relock n (Some e) dur
        \<Longrightarrow> I ((upd (\<lambda>b. b\<lparr>readError := Some e\<rparr>) (ReadFrom_commit n dur s))
                 \<lparr>rpoint := R_Returned (if e = EOF then None else Some e)\<rparr>)"
    and r_woken: "\<And>s t. I s \<Longrightarrow> rpoint s = R_Signalled \<Longrightarrow> 0 < t \<Longrightarrow> clock s = t
        \<Longrightarrow> I (ReadFrom_woken t s)"
    and w_entry: "\<And>s t0 t1. I s \<Longrightarrow> wpoint s = W_Entry \<Longrightarrow> 0 < t0 \<Longrightarrow> t0 \<le> t1 \<Longrightarrow> clock s = t1
        \<Longrightarrow> I (WriteTo_entry t0 t1 s)"
    and w_write: "\<And>s t lo hi. I s \<Longrightarrow> wpoint s = W_Writing lo hi \<Longrightarrow> 0 < t \<Longrightarrow> clock s = t
        \<Longrightarrow> I (WriteTo_write snk t lo hi s)"
    and w_commit: "\<And>s n dur. I s \<Longrightarrow> wpoint s = W_Relock n None dur
        \<Longrightarrow> I ((WriteTo_commit n dur s)\<lparr>wpoint := W_Signalled\<rparr>)"
    and w_error: "\<And>s t n e dur. I s \<Longrightarrow> wpoint s = W_Relock n (Some e) dur \<Longrightarrow> 0 < t \<Longrightarrow> clock s = t
        \<Longrightarrow> I (WriteTo_return t (Some (Errorf ''write error'' e))
               (upd (\<lambda>b. b\<lparr>writeError := Some (Errorf ''write error'' e)\<rparr>) (WriteTo_commit n dur s)))"
    and w_woken: "\<And>s t. I s \<Longrightarrow> wpoint s = W_Signalled \<Longrightarrow> 0 < t \<Longrightarrow> clock s = t
        \<Longrightarrow> I (WriteTo_top t s)"
    and stats: "\<And>s t. I s \<Longrightarrow> 0 < t \<Longrightarrow> clock s = t
        \<Longrightarrow> I (s\<lparr>snaps := snaps s @ [Buffer_Stats t (shared s)]\<rparr>)"
  assumes I: "I s" and st: "step snk ev s = Some s'"
  shows "I s'"
proof -
  define u where "u = s\<lparr>clock := last_reading ev\<rparr>"
  from st have tm: "timely ev s" and a: "act snk ev u = Some s'"
    by (auto simp: step_def u_def split: if_splits)
  from tm have t: "0 < first_reading ev" "first_reading ev \<le> last_reading ev" "0 < last_reading ev"
    "clock s \<le> last_reading ev"
    by (auto simp: timely_def)
  have Iu: "I u" unfolding u_def using clk[OF I t(4) t(3)] .
  have cu: "clock u = last_reading ev" by (simp add: u_def)
  show ?thesis
  proof (cases ev)
    case (Reader_locks t0 t1)
    show ?thesis
    proof (cases "rpoint u")
      case R_Entry
      with a Reader_locks have "s' = ReadFrom_entry t0 t1 u" by simp
      with r_entry[OF Iu R_Entry, of t0 t1] t cu Reader_locks show ?thesis by simp
    next
      case (R_Relock n err dur)
      with a Reader_locks have s': "s' = ReadFrom_relock t1 n err dur u" by simp
      show ?thesis
      proof (cases err)
        case None
        have "I (ReadFrom_woken t1 ((ReadFrom_commit n dur u)\<lparr>rpoint := R_Signalled\<rparr>))"
          using r_commit[OF Iu R_Relock[unfolded None]] t cu Reader_locks
          by (intro r_woken) (auto simp: ReadFrom_commit_def signal_by_reader_def upd_def)
        with s' None pos[OF Iu] show ?thesis by (simp add: ReadFrom_relock_None)
      next
        case (Some e)
        with s' pos[OF Iu] r_error[OF Iu R_Relock[unfolded Some]] show ?thesis
          by (simp add: ReadFrom_relock_def)
      qed
    next
      case R_Signalled
      with a Reader_locks have "s' = ReadFrom_woken t1 u" by simp
      with r_woken[OF Iu R_Signalled, of t1] t cu Reader_locks show ?thesis by simp
    qed (use a Reader_locks in auto)
  next
    case (Read_returns t')
    with a obtain lo hi where r: "rpoint u = R_Reading lo hi" and "ReadFrom_read t' lo hi u = Some s'"
      by (auto split: rpoint.splits)
    with r_read[OF Iu r, of t' s'] t cu Read_returns show ?thesis by simp
  next
    case (Writer_locks t0 t1)
    show ?thesis
    proof (cases "wpoint u")
      case W_Entry
      with a Writer_locks have "s' = WriteTo_entry t0 t1 u" by simp
      with w_entry[OF Iu W_Entry, of t0 t1] t cu Writer_locks show ?thesis by simp
    next
      case (W_Relock n err dur)
      with a Writer_locks have s': "s' = WriteTo_relock t1 n err dur u" by simp
      show ?thesis
      proof (cases err)
        case None
        have "I (WriteTo_top t1 ((WriteTo_commit n dur u)\<lparr>wpoint := W_Signalled\<rparr>))"
          using w_commit[OF Iu W_Relock[unfolded None]] t cu Writer_locks
          by (intro w_woken) (auto simp: WriteTo_commit_def signal_by_writer_def upd_def)
        with s' None show ?thesis by (simp add: WriteTo_relock_None)
      next
        case (Some e)
        with s' w_error[OF Iu W_Relock[unfolded Some], of t1] t cu Writer_locks show ?thesis
          by (simp add: WriteTo_relock_def)
      qed
    next
      case W_Signalled
      with a Writer_locks have "s' = WriteTo_top t1 u" by (simp add: WriteTo_woken_def)
      with w_woken[OF Iu W_Signalled, of t1] t cu Writer_locks show ?thesis by simp
    qed (use a Writer_locks in auto)
  next
    case (Write_returns t')
    with a obtain lo hi where w: "wpoint u = W_Writing lo hi" and "s' = WriteTo_write snk t' lo hi u"
      by (auto split: wpoint.splits)
    with w_write[OF Iu w, of t'] t cu Write_returns show ?thesis by simp
  next
    case (Stats_called t')
    with a stats[OF Iu, of t'] t cu show ?thesis by auto
  qed
qed

subsection \<open>Capacity, slices and the environment\<close>

lemmas sys_defs = ReadFrom_entry_def ReadFrom_top_def ReadFrom_full_def
  ReadFrom_commit_def ReadFrom_woken_def WriteTo_return_def WriteTo_top_def
  WriteTo_entry_def WriteTo_commit_def
  upd_def signal_by_reader_def signal_by_writer_def

lemma cap_update [simp]:
  "cap (readIndex_update f1 b) = cap b"
  "cap (ready_update f2 b) = cap b"
  "cap (totalBytesRead_update f3 b) = cap b"
  "cap (readError_update f4 b) = cap b"
  "cap (writeError_update f5 b) = cap b"
  "cap (timeStarted_update f6 b) = cap b"
  "cap (lastReadStarted_update f7 b) = cap b"
  "cap (lastWriteStarted_update f8 b) = cap b"
  "cap (timeSpentReading_update f9 b) = cap b"
  "cap (timeSpentWriting_update f10 b) = cap b"
  "cap (totalTimeSpent_update f11 b) = cap b"
  by (simp_all add: cap_def)

lemma maxWrite_update [simp]:
  "maxWrite (readIndex_update f1 b) = maxWrite b"
  "maxWrite (ready_update f2 b) = maxWrite b"
  "maxWrite (totalBytesRead_update f3 b) = maxWrite b"
  "maxWrite (readError_update f4 b) = maxWrite b"
  "maxWrite (writeError_update f5 b) = maxWrite b"
  "maxWrite (timeStarted_update f6 b) = maxWrite b"
  "maxWrite (lastReadStarted_update f7 b) = maxWrite b"
  "maxWrite (lastWriteStarted_update f8 b) = maxWrite b"
  "maxWrite (timeSpentReading_update f9 b) = maxWrite b"
  "maxWrite (timeSpentWriting_update f10 b) = maxWrite b"
  "maxWrite (totalTimeSpent_update f11 b) = maxWrite b"
  by (simp_all add: maxWrite_def)

lemma cap_copy_at [simp]:
  "int (lo + length ys) \<le> cap b \<Longrightarrow> cap (b\<lparr>buf := copy_at (buf b) lo ys\<rparr>) = cap b"
  by (simp add: cap_def length_copy_at)

lemma maxWrite_pos: "1 \<le> maxWrite b"
  by (simp add: maxWrite_def Let_def)

lemma maxWrite_max: "maxWrite b = max 1 (cap b div 8)"
  by (simp add: maxWrite_def Let_def)

lemma length_window:
  "0 \<le> lo \<Longrightarrow> lo \<le> hi \<Longrightarrow> hi \<le> int (length xs) \<Longrightarrow> length (window xs lo hi) = nat (hi - lo)"
  by (auto simp: window_def)

lemma nth_window:
  "0 \<le> lo \<Longrightarrow> hi \<le> int (length xs) \<Longrightarrow> j < nat (hi - lo) \<Longrightarrow> window xs lo hi ! j = xs ! (nat lo + j)"
  by (auto simp: window_def)

lemma nth_copy_at:
  assumes "lo + length ys \<le> length xs" "j < length xs"
  shows "copy_at xs lo ys ! j = (if lo \<le> j \<and> j < lo + length ys then ys ! (j - lo) else xs ! j)"
  using assms by (auto simp: copy_at_def nth_append)

lemma mod_below: "- c \<le> x \<Longrightarrow> x < 0 \<Longrightarrow> x mod c = x + (c::int)"
proof -
  assume "- c \<le> x" "x < 0"
  then have "(x + c) mod c = x + c" by (intro mod_pos_pos_trivial) auto
  then show ?thesis by simp
qed

text \<open>What the source answers.\<close>

lemma answer_length: "answer l src = Some (chunk, err, src') \<Longrightarrow> length chunk \<le> l"
  by (cases src) (auto split: if_splits)

lemma answer_concat:
  "answer l src = Some (chunk, err, src') \<Longrightarrow>
   chunk @ concat (map fst src') = concat (map fst src)"
  by (cases src) (auto split: if_splits)

lemma answer_left:
  "answer l src = Some (chunk, err, src') \<Longrightarrow> 1 \<le> l \<Longrightarrow>
   src_left src' + length chunk + 1 \<le> src_left src + (if chunk = [] then 0 else 1)"
  by (cases src) (auto simp: src_left_def split: if_splits)

lemma answer_eof:
  "answer l src = Some (chunk, err, src') \<Longrightarrow> eof_script src \<Longrightarrow>
   (err = Some EOF \<and> src' = []) \<or> (err = None \<and> eof_script src')"
  by (cases src rule: eof_script.cases) (auto split: if_splits)

lemma answer_Some: "src \<noteq> [] \<Longrightarrow> \<exists>r. answer l src = Some r"
  by (cases src) auto

text \<open>What the sink accepts.\<close>

lemma accept_take:
  "accept snk k p = (acc, err) \<Longrightarrow> \<exists>m \<le> length p. acc = take m p \<and> length acc = m"
  by (auto simp: accept_def split: prod.splits)

lemma accept_full: "accept full_sink k p = (p, None)"
  by (simp add: accept_def full_sink_def)

text \<open>The two I/O steps, spelt out.\<close>

lemma ReadFrom_read_Some:
  assumes "ReadFrom_read t lo hi s = Some s'"
  obtains chunk err src' where
    "answer (nat (hi - lo)) (source s) = Some (chunk, err, src')"
    "s' = s\<lparr>shared := (shared s)\<lparr>buf := copy_at (buf (shared s)) (nat lo) chunk\<rparr>,
            source := src', sourced := sourced s @ chunk,
            rsum := rsum s + int (length chunk),
            rpoint := R_Relock (int (length chunk)) err (t - lastReadStarted (shared s))\<rparr>"
  using assms by (auto simp: ReadFrom_read_def upd_def Let_def split: option.splits)

lemma WriteTo_write_eq:
  assumes "hi' = (if hi - lo > maxWrite (shared s) then lo + maxWrite (shared s) else hi)"
    and "accept snk (length (wlog s)) (window (buf (shared s)) lo hi') = (acc, err)"
  shows "WriteTo_write snk t lo hi s =
    s\<lparr>wlog := wlog s @ [window (buf (shared s)) lo hi'], sunk := sunk s @ acc,
      wsum := wsum s + int (length acc),
      wpoint := W_Relock (int (length acc)) err (t - lastWriteStarted (shared s))\<rparr>"
  using assms by (simp add: WriteTo_write_def Let_def)

subsection \<open>The ring invariant\<close>

lemma mod_wrap: "0 \<le> a \<Longrightarrow> a \<le> c \<Longrightarrow> a mod c = (if a = c then 0 else (a::int))"
  by auto

lemma free_slice_facts:
  assumes "0 \<le> readIndex b" "readIndex b < cap b" "0 \<le> ready b" "ready b < cap b"
    and "free_slice b = (lo, hi)"
  shows "lo = readIndex b" "lo < hi" "hi \<le> cap b" "ready b + (hi - lo) \<le> cap b" "slice_ok b lo hi"
  using assms by (auto simp: free_slice_def slice_ok_def Let_def split: if_splits)

lemma filled_slice_facts:
  assumes "0 \<le> readIndex b" "readIndex b < cap b" "0 < ready b" "ready b \<le> cap b"
    and "filled_slice b = (lo, hi)"
  shows "lo = (readIndex b - ready b) mod cap b" "lo < hi" "hi \<le> cap b" "hi - lo \<le> ready b"
    "slice_ok b lo hi"
proof -
  show "lo = (readIndex b - ready b) mod cap b"
  proof (cases "readIndex b - ready b \<ge> 0")
    case True
    with assms show ?thesis by (simp add: filled_slice_def)
  next
    case False
    with assms have "(readIndex b - ready b) mod cap b = readIndex b - ready b + cap b"
      by (intro mod_below) auto
    with False assms show ?thesis by (simp add: filled_slice_def)
  qed
  show "lo < hi" "hi \<le> cap b" "hi - lo \<le> ready b" "slice_ok b lo hi"
    using assms by (auto simp: filled_slice_def slice_ok_def split: if_splits)
qed

lemma writer_ok_reader_commit:
  assumes "writer_ok ri rd c w" "0 \<le> n" "0 < c"
  shows "writer_ok ((ri + n) mod c) (rd + n) c w"
proof -
  have "((ri + n) mod c - (rd + n)) mod c = (ri - rd) mod c"
    by (metis add_diff_cancel_right mod_diff_left_eq)
  with assms show ?thesis by (cases w) auto
qed

lemma reader_ok_writer_commit:
  assumes "reader_ok ri rd c r" "0 \<le> n" "n \<le> rd"
  shows "reader_ok ri (rd - n) c r"
  using assms by (cases r) auto

lemma ring_inv_clock: "ring_inv (s\<lparr>clock := t\<rparr>) = ring_inv s"
  by (simp add: ring_inv_def)

lemma ring_inv_r_top:
  assumes "ring_inv s" "ready (shared s) < cap (shared s)"
  shows "ring_inv (ReadFrom_top t s)"
proof -
  obtain lo hi where fs: "free_slice (shared s) = (lo, hi)" by (cases "free_slice (shared s)")
  from assms have *: "0 \<le> readIndex (shared s)" "readIndex (shared s) < cap (shared s)" "0 \<le> ready (shared s)"
    by (auto simp: ring_inv_def)
  note f = free_slice_facts[OF * assms(2) fs]
  with assms fs show ?thesis
    by (simp add: ring_inv_def ReadFrom_top_def upd_def)
qed

lemma ring_inv_r_entry: 
  assumes "ring_inv s" "rpoint s = R_Entry" shows "ring_inv (ReadFrom_entry t0 t1 s)"
  unfolding ReadFrom_entry_def using assms
  by (intro ring_inv_r_top) (auto simp: ring_inv_def upd_def)

lemma ring_inv_r_read:
  assumes "ring_inv s" "rpoint s = R_Reading lo hi" "ReadFrom_read t lo hi s = Some s'"
  shows "ring_inv s'"
proof -
  from assms(3) obtain chunk err src' where
    a: "answer (nat (hi - lo)) (source s) = Some (chunk, err, src')"
    and s': "s' = s\<lparr>shared := (shared s)\<lparr>buf := copy_at (buf (shared s)) (nat lo) chunk\<rparr>,
            source := src', sourced := sourced s @ chunk,
            rsum := rsum s + int (length chunk),
            rpoint := R_Relock (int (length chunk)) err (t - lastReadStarted (shared s))\<rparr>"
    by (rule ReadFrom_read_Some)
  from answer_length[OF a] assms(1,2) show ?thesis
    unfolding s' by (auto simp: ring_inv_def)
qed

lemma ring_inv_r_commit:
  assumes "ring_inv s" "rpoint s = R_Relock n e dur"
  shows "ring_inv ((ReadFrom_commit n dur s)\<lparr>rpoint := R_Signalled\<rparr>)"
proof -
  let ?b = "shared s"
  from assms have c: "0 < cap ?b" and n: "0 \<le> n" "readIndex ?b + n \<le> cap ?b" "ready ?b + n \<le> cap ?b"
    and ri: "0 \<le> readIndex ?b" and w: "writer_ok (readIndex ?b) (ready ?b) (cap ?b) (wpoint s)"
    and rd: "0 \<le> ready ?b"
    by (auto simp: ring_inv_def)
  have sm: "(readIndex ?b + n) smod cap ?b = (readIndex ?b + n) mod cap ?b"
    using c n ri by (simp add: smod_nonneg)
  have w': "writer_ok ((readIndex ?b + n) mod cap ?b) (ready ?b + n) (cap ?b) (wpoint s)"
    using writer_ok_reader_commit[OF w n(1) c] .
  show ?thesis using c n ri rd w'
    by (auto simp: ring_inv_def sys_defs sm)
qed

lemma ring_inv_r_error:
  assumes "ring_inv s" "rpoint s = R_Relock n e dur"
  shows "ring_inv ((upd (\<lambda>b. b\<lparr>readError := x\<rparr>) (ReadFrom_commit n dur s))\<lparr>rpoint := R_Returned y\<rparr>)"
  using ring_inv_r_commit[OF assms] by (auto simp: ring_inv_def sys_defs)

lemma ring_inv_r_woken: "ring_inv s \<Longrightarrow> ring_inv (ReadFrom_woken t s)"
  using ring_inv_r_top[of s t]
  by (auto simp: ReadFrom_woken_def ReadFrom_full_def split: option.splits) (auto simp: ring_inv_def)

lemma ring_inv_w_top: 
  assumes "ring_inv s" shows "ring_inv (WriteTo_top t s)"
proof (cases "ready (shared s) = 0")
  case True
  with assms show ?thesis
    by (auto simp: ring_inv_def WriteTo_top_def WriteTo_return_def upd_def split: option.splits)
next
  case False
  obtain lo hi where fs: "filled_slice (shared s) = (lo, hi)" by (cases "filled_slice (shared s)")
  from assms False have *: "0 \<le> readIndex (shared s)" "readIndex (shared s) < cap (shared s)"
     "0 < ready (shared s)" "ready (shared s) \<le> cap (shared s)"
    by (auto simp: ring_inv_def)
  note f = filled_slice_facts[OF * fs]
  with assms fs False show ?thesis
    by (simp add: ring_inv_def WriteTo_top_def upd_def)
qed

lemma ring_inv_w_entry: 
  assumes "ring_inv s" shows "ring_inv (WriteTo_entry t0 t1 s)"
  unfolding WriteTo_entry_def using assms
  by (intro ring_inv_w_top) (auto simp: ring_inv_def upd_def)

text \<open>The slice that \<open>Write\<close> gets, cut to \<open>maxWrite\<close>.\<close>

lemma cut_slice:
  assumes "ring_inv s" "wpoint s = W_Writing lo hi"
    and "hi' = (if hi - lo > maxWrite (shared s) then lo + maxWrite (shared s) else hi)"
  shows "0 \<le> lo" "lo < hi'" "hi' \<le> hi" "hi' \<le> cap (shared s)" "hi' - lo \<le> maxWrite (shared s)"
    "hi' - lo \<le> ready (shared s)" "length (window (buf (shared s)) lo hi') = nat (hi' - lo)"
proof -
  from assms have *: "lo = (readIndex (shared s) - ready (shared s)) mod cap (shared s)" "lo < hi"
    "hi \<le> cap (shared s)" "hi - lo \<le> ready (shared s)" "0 < cap (shared s)"
    by (auto simp: ring_inv_def)
  then show lo: "0 \<le> lo" by simp
  show **: "lo < hi'" "hi' \<le> hi" "hi' \<le> cap (shared s)" "hi' - lo \<le> maxWrite (shared s)"
    "hi' - lo \<le> ready (shared s)"
    using * assms(3) maxWrite_pos[of "shared s"] by auto
  show "length (window (buf (shared s)) lo hi') = nat (hi' - lo)"
    using lo ** by (intro length_window) (auto simp: cap_def)
qed

lemma ring_inv_w_write: 
  assumes "ring_inv s" "wpoint s = W_Writing lo hi" 
  shows "ring_inv (WriteTo_write snk t lo hi s)"
proof -
  define hi' where "hi' = (if hi - lo > maxWrite (shared s) then lo + maxWrite (shared s) else hi)"
  obtain acc err where ac: "accept snk (length (wlog s)) (window (buf (shared s)) lo hi') = (acc, err)"
    by (cases "accept snk (length (wlog s)) (window (buf (shared s)) lo hi')")
  note c = cut_slice[OF assms hi'_def]
  from accept_take[OF ac] c(7) have len: "length acc \<le> nat (hi' - lo)" by auto
  from assms have "lo = (readIndex (shared s) - ready (shared s)) mod cap (shared s)"
    by (auto simp: ring_inv_def)
  with assms(1) c len show ?thesis
    unfolding WriteTo_write_eq[OF hi'_def ac] by (auto simp: ring_inv_def)
qed

lemma ring_inv_w_commit:
  assumes "ring_inv s" "wpoint s = W_Relock n e dur"
  shows "ring_inv ((WriteTo_commit n dur s)\<lparr>wpoint := W_Signalled\<rparr>)"
  using assms reader_ok_writer_commit[of "readIndex (shared s)" "ready (shared s)" "cap (shared s)" "rpoint s" n]
  by (auto simp: ring_inv_def sys_defs)

lemma ring_inv_w_error:
  assumes "ring_inv s" "wpoint s = W_Relock n e dur"
  shows "ring_inv (WriteTo_return t y (upd (\<lambda>b. b\<lparr>writeError := x\<rparr>) (WriteTo_commit n dur s)))"
  using ring_inv_w_commit[OF assms] by (auto simp: ring_inv_def sys_defs)

lemma ring_inv_stats: "ring_inv (s\<lparr>snaps := x\<rparr>) = ring_inv s"
  by (simp add: ring_inv_def)

lemma ring_inv_step: "ring_inv s \<Longrightarrow> step snk ev s = Some s' \<Longrightarrow> ring_inv s'"
  by (erule step_preserves[where I = ring_inv, rotated -2])
     (simp_all add: ring_inv_clock ring_inv_r_entry ring_inv_r_commit ring_inv_r_error
       ring_inv_r_woken ring_inv_w_top ring_inv_w_entry ring_inv_w_write ring_inv_w_commit ring_inv_w_error
       ring_inv_stats, simp add: ring_inv_def, erule (2) ring_inv_r_read)

subsection \<open>Runs, and the capacity\<close>

lemma exec_preserves:
  assumes "\<And>s ev s'. I s \<Longrightarrow> step snk ev s = Some s' \<Longrightarrow> I s'"
  shows "I s \<Longrightarrow> exec snk evs s = Some s' \<Longrightarrow> I s'"
proof (induction evs arbitrary: s)
  case Nil
  then show ?case by simp
next
  case (Cons ev evs)
  then show ?case using assms by (auto split: option.splits)
qed

lemma exec_append:
  "exec snk (evs @ evs') s = (case exec snk evs s of None \<Rightarrow> None | Some s' \<Rightarrow> exec snk evs' s')"
  by (induction evs arbitrary: s) (auto split: option.splits)

lemma New_fields:
  assumes "New c = Some b"
  shows "0 \<le> c" "cap b = c" "readIndex b = 0" "ready b = 0" "totalBytesRead b = 0" "readError b = None"
    "writeError b = None" "timeStarted b = 0" "lastReadStarted b = 0" "lastWriteStarted b = 0"
    "timeSpentReading b = 0" "timeSpentWriting b = 0" "totalTimeSpent b = 0"
  using assms by (auto simp: New_def cap_def split: if_splits)

lemma ring_inv_Copy: "New c = Some b \<Longrightarrow> 1 \<le> c \<Longrightarrow> ring_inv (Copy b src)"
  by (simp add: ring_inv_def Copy_def New_fields)

lemma ring_inv_exec: "ring_inv s \<Longrightarrow> exec snk evs s = Some s' \<Longrightarrow> ring_inv s'"
  by (rule exec_preserves[where I = ring_inv]) (auto intro: ring_inv_step)

lemma cap_ReadFrom_top: "cap (shared (ReadFrom_top t s)) = cap (shared s)"
  by (simp add: ReadFrom_top_def upd_def split: prod.splits)

lemma cap_ReadFrom_woken: "cap (shared (ReadFrom_woken t s)) = cap (shared s)"
  by (simp add: ReadFrom_woken_def ReadFrom_full_def cap_ReadFrom_top split: option.splits)

lemma cap_ReadFrom_commit: "cap (shared (ReadFrom_commit n dur s)) = cap (shared s)"
  by (simp add: sys_defs)

lemma cap_WriteTo_top: "cap (shared (WriteTo_top t s)) = cap (shared s)"
  by (simp add: WriteTo_top_def WriteTo_return_def upd_def split: prod.splits option.splits)

lemma cap_WriteTo_commit: "cap (shared (WriteTo_commit n dur s)) = cap (shared s)"
  by (simp add: sys_defs)

lemma cap_WriteTo_write: "cap (shared (WriteTo_write snk t lo hi s)) = cap (shared s)"
  by (simp add: WriteTo_write_def Let_def split: prod.splits)

lemma cap_ReadFrom_read:
  assumes "ring_inv s" "rpoint s = R_Reading lo hi" "ReadFrom_read t lo hi s = Some s'"
  shows "cap (shared s') = cap (shared s)"
proof -
  from assms(3) obtain chunk err src' where
    a: "answer (nat (hi - lo)) (source s) = Some (chunk, err, src')"
    and s': "s' = s\<lparr>shared := (shared s)\<lparr>buf := copy_at (buf (shared s)) (nat lo) chunk\<rparr>,
            source := src', sourced := sourced s @ chunk,
            rsum := rsum s + int (length chunk),
            rpoint := R_Relock (int (length chunk)) err (t - lastReadStarted (shared s))\<rparr>"
    by (rule ReadFrom_read_Some)
  from answer_length[OF a] assms(1,2) show ?thesis
    unfolding s' by (auto simp: ring_inv_def)
qed

lemma cap_step:
  assumes "ring_inv s" "step snk ev s = Some s'"
  shows "cap (shared s') = cap (shared s)"
proof -
  have s: "ring_inv s \<and> cap (shared s) = cap (shared s)" using assms by simp
  have "ring_inv s' \<and> cap (shared s') = cap (shared s)"
  proof (rule step_preserves[where I = "\<lambda>u. ring_inv u \<and> cap (shared u) = cap (shared s)",
        OF _ _ _ _ _ _ _ _ _ _ _ _ _ s assms(2)], goal_cases)
    case (1 u t) then show ?case by (simp add: ring_inv_clock)
  next
    case (2 u) then show ?case by (simp add: ring_inv_def)
  next
    case (3 u t0 t1) then show ?case
      by (simp add: ring_inv_r_entry) (simp add: ReadFrom_entry_def cap_ReadFrom_top upd_def)
  next
    case (4 u t lo hi u') then show ?case by (auto intro: ring_inv_r_read simp: cap_ReadFrom_read)
  next
    case (5 u n dur) then show ?case by (auto intro: ring_inv_r_commit simp: cap_ReadFrom_commit)
  next
    case (6 u n e dur) then show ?case
      using ring_inv_r_error[of u n "Some e" dur] by (auto simp: upd_def cap_ReadFrom_commit)
  next
    case (7 u t) then show ?case by (simp add: ring_inv_r_woken cap_ReadFrom_woken)
  next
    case (8 u t0 t1) then show ?case
      by (simp add: ring_inv_w_entry) (simp add: WriteTo_entry_def cap_WriteTo_top upd_def)
  next
    case (9 u t lo hi) then show ?case by (simp add: ring_inv_w_write cap_WriteTo_write)
  next
    case (10 u n dur) then show ?case by (auto intro: ring_inv_w_commit simp: cap_WriteTo_commit)
  next
    case (11 u t n e dur) then show ?case
      using ring_inv_w_error[of u n "Some e" dur] by (auto simp: upd_def WriteTo_return_def cap_WriteTo_commit)
  next
    case (12 u t) then show ?case by (simp add: ring_inv_w_top cap_WriteTo_top)
  next
    case (13 u t) then show ?case by (simp add: ring_inv_stats)
  qed
  then show ?thesis ..
qed

lemma cap_exec: "ring_inv s \<Longrightarrow> exec snk evs s = Some s' \<Longrightarrow> cap (shared s') = cap (shared s)"
proof (induction evs arbitrary: s)
  case Nil
  then show ?case by simp
next
  case (Cons ev evs)
  from Cons.prems obtain u where u: "step snk ev s = Some u" "exec snk evs u = Some s'"
    by (auto split: option.splits)
  with Cons.prems(1) have "ring_inv u" "cap (shared u) = cap (shared s)"
    by (auto intro: ring_inv_step cap_step)
  with Cons.IH[OF this(1) u(2)] show ?case by simp
qed

subsection \<open>The slices passed to Read and Write\<close>

lemma log_inv_r_top:
  assumes "ring_inv s" "log_inv s" "ready (shared s) < cap (shared s)"
  shows "log_inv (ReadFrom_top t s)"
proof -
  obtain lo hi where fs: "free_slice (shared s) = (lo, hi)" by (cases "free_slice (shared s)")
  from assms have *: "0 \<le> readIndex (shared s)" "readIndex (shared s) < cap (shared s)" "0 \<le> ready (shared s)"
    by (auto simp: ring_inv_def)
  note f = free_slice_facts[OF * assms(3) fs]
  with assms fs * show ?thesis
    by (auto simp: log_inv_def ReadFrom_top_def upd_def)
qed

lemma log_inv_clock: "log_inv (s\<lparr>clock := t\<rparr>) = log_inv s"
  by (simp add: log_inv_def)

lemma log_inv_r_entry: 
  assumes "ring_inv s" "log_inv s" "rpoint s = R_Entry" shows "log_inv (ReadFrom_entry t0 t1 s)"
  unfolding ReadFrom_entry_def using assms
  by (intro log_inv_r_top) (auto simp: ring_inv_def log_inv_def upd_def)

lemma log_inv_r_read:
  assumes "ring_inv s" "log_inv s" "rpoint s = R_Reading lo hi" "ReadFrom_read t lo hi s = Some s'"
  shows "log_inv s'"
proof -
  from assms(4) obtain chunk err src' where
    a: "answer (nat (hi - lo)) (source s) = Some (chunk, err, src')"
    and s': "s' = s\<lparr>shared := (shared s)\<lparr>buf := copy_at (buf (shared s)) (nat lo) chunk\<rparr>,
            source := src', sourced := sourced s @ chunk,
            rsum := rsum s + int (length chunk),
            rpoint := R_Relock (int (length chunk)) err (t - lastReadStarted (shared s))\<rparr>"
    by (rule ReadFrom_read_Some)
  have "cap (shared s') = cap (shared s)" using cap_ReadFrom_read[OF assms(1,3,4)] .
  then have "maxWrite (shared s') = maxWrite (shared s)" by (simp add: maxWrite_def)
  with \<open>cap (shared s') = cap (shared s)\<close> assms(2) show ?thesis
    unfolding log_inv_def by (simp add: s')
qed

lemma log_inv_r_commit: "log_inv s \<Longrightarrow> log_inv ((ReadFrom_commit n dur s)\<lparr>rpoint := x\<rparr>)"
  by (auto simp: log_inv_def sys_defs)

lemma log_inv_r_error:
  "log_inv s \<Longrightarrow> log_inv ((upd (\<lambda>b. b\<lparr>readError := x\<rparr>) (ReadFrom_commit n dur s))\<lparr>rpoint := y\<rparr>)"
  by (auto simp: log_inv_def sys_defs)

lemma log_inv_r_woken: "ring_inv s \<Longrightarrow> log_inv s \<Longrightarrow> log_inv (ReadFrom_woken t s)"
  using log_inv_r_top[of s t]
  by (auto simp: ReadFrom_woken_def ReadFrom_full_def split: option.splits) (auto simp: ring_inv_def log_inv_def)

lemma log_inv_w_top: "log_inv s \<Longrightarrow> log_inv (WriteTo_top t s)"
  by (auto simp: log_inv_def WriteTo_top_def WriteTo_return_def upd_def split: option.splits prod.splits)

lemma log_inv_w_entry: "log_inv s \<Longrightarrow> log_inv (WriteTo_entry t0 t1 s)"
  unfolding WriteTo_entry_def
  by (intro log_inv_w_top) (auto simp: log_inv_def upd_def)

lemma log_inv_w_write: 
  assumes "ring_inv s" "log_inv s" "wpoint s = W_Writing lo hi" 
  shows "log_inv (WriteTo_write snk t lo hi s)"
proof -
  define hi' where "hi' = (if hi - lo > maxWrite (shared s) then lo + maxWrite (shared s) else hi)"
  obtain acc err where ac: "accept snk (length (wlog s)) (window (buf (shared s)) lo hi') = (acc, err)"
    by (cases "accept snk (length (wlog s)) (window (buf (shared s)) lo hi')")
  note c = cut_slice[OF assms(1,3) hi'_def]
  then show ?thesis using assms(2)
    unfolding WriteTo_write_eq[OF hi'_def ac] by (auto simp: log_inv_def)
qed

lemma log_inv_w_commit: "log_inv s \<Longrightarrow> log_inv ((WriteTo_commit n dur s)\<lparr>wpoint := x\<rparr>)"
  by (auto simp: log_inv_def sys_defs)

lemma log_inv_w_error:
  "log_inv s \<Longrightarrow> log_inv (WriteTo_return t y (upd (\<lambda>b. b\<lparr>writeError := x\<rparr>) (WriteTo_commit n dur s)))"
  by (auto simp: log_inv_def sys_defs)

lemma log_inv_stats: "log_inv (s\<lparr>snaps := x\<rparr>) = log_inv s"
  by (simp add: log_inv_def)

lemma log_inv_step:
  assumes "ring_inv s \<and> log_inv s" "step snk ev s = Some s'"
  shows "ring_inv s' \<and> log_inv s'"
proof (rule step_preserves[where I = "\<lambda>u. ring_inv u \<and> log_inv u", OF _ _ _ _ _ _ _ _ _ _ _ _ _ assms],
    goal_cases)
  case (1 u t) then show ?case by (simp add: ring_inv_clock log_inv_clock)
next
  case (2 u) then show ?case by (simp add: ring_inv_def)
next
  case (3 u t0 t1) then show ?case by (simp add: ring_inv_r_entry log_inv_r_entry)
next
  case (4 u t lo hi u') then show ?case by (auto intro: ring_inv_r_read log_inv_r_read)
next
  case (5 u n dur) then show ?case by (auto intro: ring_inv_r_commit log_inv_r_commit)
next
  case (6 u n e dur) then show ?case by (auto intro: ring_inv_r_error log_inv_r_error)
next
  case (7 u t) then show ?case by (simp add: ring_inv_r_woken log_inv_r_woken)
next
  case (8 u t0 t1) then show ?case by (simp add: ring_inv_w_entry log_inv_w_entry)
next
  case (9 u t lo hi) then show ?case by (simp add: ring_inv_w_write log_inv_w_write)
next
  case (10 u n dur) then show ?case by (auto intro: ring_inv_w_commit log_inv_w_commit)
next
  case (11 u t n e dur) then show ?case by (auto intro: ring_inv_w_error log_inv_w_error)
next
  case (12 u t) then show ?case by (simp add: ring_inv_w_top log_inv_w_top)
next
  case (13 u t) then show ?case by (simp add: ring_inv_stats log_inv_stats)
qed

lemma log_inv_Copy: "log_inv (Copy b src)"
  by (simp add: log_inv_def Copy_def)

lemma log_inv_exec:
  "ring_inv s \<and> log_inv s \<Longrightarrow> exec snk evs s = Some s' \<Longrightarrow> ring_inv s' \<and> log_inv s'"
  by (rule exec_preserves[where I = "\<lambda>u. ring_inv u \<and> log_inv u"]) (rule log_inv_step)

subsection \<open>The bytes in the ring\<close>

lemma mod_window_inj:
  assumes "(a::int) mod c = b mod c" "a \<le> b" "b < a + c"
  shows "a = b"
proof -
  from assms(1) have "(b - a) mod c = 0"
    by (metis cancel_comm_monoid_add_class.diff_cancel mod_0 mod_diff_cong)
  moreover from assms(2,3) have "(b - a) mod c = b - a"
    by (intro mod_pos_pos_trivial) auto
  ultimately show ?thesis by simp
qed

lemma mod_offset:
  assumes "(w::int) mod c = lo" "0 \<le> j" "lo + j < c" "0 < c"
  shows "(w + j) mod c = lo + j"
proof -
  have lo: "0 \<le> lo" using assms(1,4) by auto
  have "(w + j) mod c = (w mod c + j) mod c" by (simp add: mod_add_left_eq)
  also have "\<dots> = (lo + j) mod c" using assms(1) by simp
  also have "\<dots> = lo + j" using assms(2,3) lo by (intro mod_pos_pos_trivial) auto
  finally show ?thesis .
qed

lemma data_inv_clock: "data_inv (s\<lparr>clock := t\<rparr>) = data_inv s"
  by (simp add: data_inv_def)

lemma data_inv_stats: "data_inv (s\<lparr>snaps := x\<rparr>) = data_inv s"
  by (simp add: data_inv_def)

lemma data_inv_r_top: "data_inv s \<Longrightarrow> r_pending (rpoint s) = 0 \<Longrightarrow> data_inv (ReadFrom_top t s)"
  by (auto simp: data_inv_def ReadFrom_top_def upd_def split: prod.splits)

lemma data_inv_r_entry: "data_inv s \<Longrightarrow> rpoint s = R_Entry \<Longrightarrow> data_inv (ReadFrom_entry t0 t1 s)"
  unfolding ReadFrom_entry_def by (intro data_inv_r_top) (auto simp: data_inv_def upd_def)

lemma data_inv_r_woken: "data_inv s \<Longrightarrow> rpoint s = R_Signalled \<Longrightarrow> data_inv (ReadFrom_woken t s)"
  using data_inv_r_top[of s t]
  by (auto simp: ReadFrom_woken_def ReadFrom_full_def split: option.splits) (auto simp: data_inv_def)

lemma data_inv_r_read:
  assumes ring: "ring_inv s" and data: "data_inv s" and pt: "rpoint s = R_Reading lo hi"
    and rd: "ReadFrom_read t lo hi s = Some s'"
  shows "data_inv s'"
proof -
  from rd obtain chunk err src' where
    a: "answer (nat (hi - lo)) (source s) = Some (chunk, err, src')"
    and s': "s' = s\<lparr>shared := (shared s)\<lparr>buf := copy_at (buf (shared s)) (nat lo) chunk\<rparr>,
            source := src', sourced := sourced s @ chunk,
            rsum := rsum s + int (length chunk),
            rpoint := R_Relock (int (length chunk)) err (t - lastReadStarted (shared s))\<rparr>"
    by (rule ReadFrom_read_Some)
  let ?b = "shared s"
  let ?C = "cap ?b"
  let ?T = "totalBytesRead ?b"
  let ?W = "int (length (sourced s))"
  let ?K = "?T - ready ?b"
  let ?n = "int (length chunk)"
  from ring pt have r: "0 < ?C" "0 \<le> lo" "lo = readIndex ?b" "lo < hi" "hi \<le> ?C"
    "ready ?b + (hi - lo) \<le> ?C" "0 \<le> ready ?b"
    by (auto simp: ring_inv_def)
  from data pt have d: "?T = ?W" "readIndex ?b = ?T mod ?C"
    "int (length (sunk s)) = ?K + w_pending (wpoint s)" "prefix (sunk s) (sourced s)"
    "\<And>i. ?K \<le> i \<Longrightarrow> i < ?W \<Longrightarrow> buf ?b ! nat (i mod ?C) = sourced s ! nat i"
    "rsum s = ?W" "wsum s = int (length (sunk s))" "ready ?b \<le> ?T"
    by (auto simp: data_inv_def)
  have n: "?n \<le> hi - lo" using answer_length[OF a] r(4) by simp
  have Wm: "?W mod ?C = lo" using d(1,2) r(3) by simp
  have fits: "nat lo + length chunk \<le> length (buf ?b)" using n r by (simp add: cap_def)
  have cap': "cap (shared s') = ?C" unfolding s' using fits by (simp add: cap_def length_copy_at)
  have content: "buf (shared s') ! nat (i mod ?C) = (sourced s @ chunk) ! nat i"
    if i: "?K \<le> i" "i < ?W + ?n" for i
  proof -
    have i0: "0 \<le> i mod ?C" "i mod ?C < ?C" using r(1) by simp_all
    then have lt: "nat (i mod ?C) < length (buf ?b)" by (simp add: cap_def)
    have K0: "0 \<le> ?K" using d(8) by simp
    show ?thesis
    proof (cases "i < ?W")
      case True
      have out: "\<not> (nat lo \<le> nat (i mod ?C) \<and> nat (i mod ?C) < nat lo + length chunk)"
      proof
        assume "nat lo \<le> nat (i mod ?C) \<and> nat (i mod ?C) < nat lo + length chunk"
        then have j: "lo \<le> i mod ?C" "i mod ?C < lo + ?n" using r(2) i0 by auto
        define j where "j = i mod ?C - lo"
        have j0: "0 \<le> j" "lo + j < ?C" using j n r(5) by (simp_all add: j_def)
        then have "(?W + j) mod ?C = lo + j"
          using Wm r(1) by (intro mod_offset)
        then have "i mod ?C = (?W + j) mod ?C" by (simp add: j_def)
        moreover have "i \<le> ?W + j" using True j by (simp add: j_def)
        moreover have "?W + j < i + ?C" using i(1) j n r(6) d(1) by (simp add: j_def)
        ultimately have "i = ?W + j" by (rule mod_window_inj)
        with True j0 show False by linarith
      qed
      have "buf (shared s') ! nat (i mod ?C) = buf ?b ! nat (i mod ?C)"
        unfolding s' using nth_copy_at[OF fits lt] out by simp
      also have "\<dots> = sourced s ! nat i" using d(5)[OF i(1) True] .
      also have "\<dots> = (sourced s @ chunk) ! nat i"
      proof -
        have "nat i < length (sourced s)" using True K0 i(1) by linarith
        then show ?thesis by (simp add: nth_append)
      qed
      finally show ?thesis .
    next
      case False
      define j where "j = i - ?W"
      have j: "0 \<le> j" "j < ?n" using False i by (simp_all add: j_def)
      have "lo + j < ?C" using j n r(5) by simp
      with mod_offset[OF Wm j(1) _ r(1)] have m: "i mod ?C = lo + j"
        by (simp add: j_def)
      have idx: "nat (i mod ?C) = nat lo + nat j" using m j(1) r(2) by (simp add: nat_add_distrib)
      have nj: "nat j < length chunk" using j by linarith
      have "buf (shared s') ! nat (i mod ?C) = chunk ! nat j"
        unfolding s' using nth_copy_at[OF fits lt] nj by (simp add: idx)
      also have "chunk ! nat j = (sourced s @ chunk) ! nat i"
      proof -
        have "nat i = length (sourced s) + nat j" using False j(1) by (simp add: j_def)
        then show ?thesis by (simp add: nth_append)
      qed
      finally show ?thesis .
    qed
  qed
  show ?thesis
    unfolding data_inv_def cap'
    using d pt content by (simp add: s' prefix_prefix)
qed

lemma data_inv_r_commit:
  assumes ring: "ring_inv s" and data: "data_inv s" and pt: "rpoint s = R_Relock n e dur"
  shows "data_inv ((ReadFrom_commit n dur s)\<lparr>rpoint := R_Signalled\<rparr>)"
proof -
  let ?b = "shared s"
  let ?T = "totalBytesRead ?b"
  from ring pt have r: "0 < cap ?b" "0 \<le> n" "0 \<le> readIndex ?b"
    by (auto simp: ring_inv_def)
  from data pt have d: "?T + n = int (length (sourced s))" "ready ?b \<le> ?T"
    "readIndex ?b = ?T mod cap ?b"
    "int (length (sunk s)) = ?T - ready ?b + w_pending (wpoint s)" "prefix (sunk s) (sourced s)"
    "\<And>i. ?T - ready ?b \<le> i \<Longrightarrow> i < int (length (sourced s)) \<Longrightarrow>
       buf ?b ! nat (i mod cap ?b) = sourced s ! nat i"
    "rsum s = int (length (sourced s))" "wsum s = int (length (sunk s))"
    by (auto simp: data_inv_def)
  have "(readIndex ?b + n) smod cap ?b = (readIndex ?b + n) mod cap ?b"
    using r by (simp add: smod_nonneg)
  also have "\<dots> = (?T + n) mod cap ?b"
    unfolding d(3) by (simp add: mod_add_left_eq)
  finally have ri: "(readIndex ?b + n) smod cap ?b = (?T + n) mod cap ?b" .
  define u where "u = (ReadFrom_commit n dur s)\<lparr>rpoint := R_Signalled\<rparr>"
  have u: "totalBytesRead (shared u) = ?T + n" "ready (shared u) = ready ?b + n"
    "readIndex (shared u) = (?T + n) mod cap ?b" "cap (shared u) = cap ?b" "buf (shared u) = buf ?b"
    "sourced u = sourced s" "sunk u = sunk s" "rsum u = rsum s" "wsum u = wsum s"
    "r_pending (rpoint u) = 0" "w_pending (wpoint u) = w_pending (wpoint s)"
    by (simp_all add: u_def ReadFrom_commit_def upd_def signal_by_reader_def ri)
  show ?thesis
    unfolding u_def[symmetric] data_inv_def u using d by auto
qed

lemma data_inv_r_error:
  assumes "ring_inv s" "data_inv s" "rpoint s = R_Relock n e dur"
  shows "data_inv ((upd (\<lambda>b. b\<lparr>readError := x\<rparr>) (ReadFrom_commit n dur s))\<lparr>rpoint := R_Returned y\<rparr>)"
  using data_inv_r_commit[OF assms] by (simp add: data_inv_def upd_def)

lemma data_inv_w_top: "data_inv s \<Longrightarrow> w_pending (wpoint s) = 0 \<Longrightarrow> data_inv (WriteTo_top t s)"
  by (auto simp: data_inv_def WriteTo_top_def WriteTo_return_def upd_def split: prod.splits option.splits)

lemma data_inv_w_entry: "data_inv s \<Longrightarrow> wpoint s = W_Entry \<Longrightarrow> data_inv (WriteTo_entry t0 t1 s)"
  unfolding WriteTo_entry_def by (intro data_inv_w_top) (auto simp: data_inv_def upd_def)

lemma data_inv_w_commit:
  assumes ring: "ring_inv s" and data: "data_inv s" and pt: "wpoint s = W_Relock n e dur"
  shows "data_inv ((WriteTo_commit n dur s)\<lparr>wpoint := W_Signalled\<rparr>)"
proof -
  let ?b = "shared s"
  let ?T = "totalBytesRead ?b"
  from ring pt have r: "0 \<le> n" "n \<le> ready (shared s)"
    by (auto simp: ring_inv_def)
  from data pt have d: "?T + r_pending (rpoint s) = int (length (sourced s))" "ready ?b \<le> ?T"
    "readIndex ?b = ?T mod cap ?b"
    "int (length (sunk s)) = ?T - ready ?b + n" "prefix (sunk s) (sourced s)"
    "\<And>i. ?T - ready ?b \<le> i \<Longrightarrow> i < int (length (sourced s)) \<Longrightarrow>
       buf ?b ! nat (i mod cap ?b) = sourced s ! nat i"
    "rsum s = int (length (sourced s))" "wsum s = int (length (sunk s))"
    by (auto simp: data_inv_def)
  define u where "u = (WriteTo_commit n dur s)\<lparr>wpoint := W_Signalled\<rparr>"
  have u: "totalBytesRead (shared u) = ?T" "ready (shared u) = ready ?b - n"
    "readIndex (shared u) = readIndex ?b" "cap (shared u) = cap ?b" "buf (shared u) = buf ?b"
    "sourced u = sourced s" "sunk u = sunk s" "rsum u = rsum s" "wsum u = wsum s"
    "r_pending (rpoint u) = r_pending (rpoint s)" "w_pending (wpoint u) = 0"
    by (simp_all add: u_def WriteTo_commit_def upd_def signal_by_writer_def)
  show ?thesis
    unfolding u_def[symmetric] data_inv_def u using d r by auto
qed

lemma data_inv_w_error:
  assumes "ring_inv s" "data_inv s" "wpoint s = W_Relock n e dur"
  shows "data_inv (WriteTo_return t y (upd (\<lambda>b. b\<lparr>writeError := x\<rparr>) (WriteTo_commit n dur s)))"
  using data_inv_w_commit[OF assms] by (simp add: data_inv_def upd_def WriteTo_return_def)

text \<open>The slice that \<open>Write\<close> gets shows the bytes that come next.\<close>

lemma written_slice:
  assumes ring: "ring_inv s" and data: "data_inv s" and pt: "wpoint s = W_Writing lo hi"
    and hi': "hi' = (if hi - lo > maxWrite (shared s) then lo + maxWrite (shared s) else hi)"
  shows "window (buf (shared s)) lo hi' = take (nat (hi' - lo)) (drop (length (sunk s)) (sourced s))"
proof -
  let ?b = "shared s"
  let ?C = "cap ?b"
  let ?T = "totalBytesRead ?b"
  let ?W = "int (length (sourced s))"
  let ?K = "?T - ready ?b"
  note c = cut_slice[OF ring pt hi']
  from ring pt have r: "0 < ?C" "lo = (readIndex ?b - ready ?b) mod ?C" "0 \<le> r_pending (rpoint s)"
    by (cases "rpoint s"; auto simp: ring_inv_def)+
  from data pt have d: "?T + r_pending (rpoint s) = ?W" "readIndex ?b = ?T mod ?C"
    "int (length (sunk s)) = ?K"
    "\<And>i. ?K \<le> i \<Longrightarrow> i < ?W \<Longrightarrow> buf ?b ! nat (i mod ?C) = sourced s ! nat i"
    "ready ?b \<le> ?T"
    by (auto simp: data_inv_def)
  have Km: "?K mod ?C = lo" unfolding r(2) d(2) by (simp add: mod_diff_left_eq)
  have K: "nat ?K = length (sunk s)" using d(3) by simp
  have room: "?K + (hi' - lo) \<le> ?W" using c(6) d(1) r(3) by simp
  show ?thesis
  proof (rule nth_equalityI)
    show "length (window (buf ?b) lo hi') = length (take (nat (hi' - lo)) (drop (length (sunk s)) (sourced s)))"
      using c(7) room d(3) by simp
  next
    fix j assume "j < length (window (buf ?b) lo hi')"
    then have j: "j < nat (hi' - lo)" using c(7) by simp
    then have jj: "0 \<le> int j" "lo + int j < ?C" "?K \<le> ?K + int j" "?K + int j < ?W"
      using c(4) room by auto
    have "window (buf ?b) lo hi' ! j = buf ?b ! (nat lo + j)"
      using c(1,4) j by (intro nth_window) (auto simp: cap_def)
    also have "nat lo + j = nat ((?K + int j) mod ?C)"
      using mod_offset[OF Km jj(1,2) r(1)] c(1) by (simp add: nat_add_distrib)
    also have "buf ?b ! \<dots> = sourced s ! nat (?K + int j)" using d(4)[OF jj(3,4)] .
    also have "nat (?K + int j) = length (sunk s) + j" using d(3,5) by (simp add: nat_add_distrib K)
    finally show "window (buf ?b) lo hi' ! j = take (nat (hi' - lo)) (drop (length (sunk s)) (sourced s)) ! j"
      using j jj(4) d(3) by simp
  qed
qed

lemma data_inv_w_write:
  assumes ring: "ring_inv s" and data: "data_inv s" and pt: "wpoint s = W_Writing lo hi"
  shows "data_inv (WriteTo_write snk t lo hi s)"
proof -
  define hi' where "hi' = (if hi - lo > maxWrite (shared s) then lo + maxWrite (shared s) else hi)"
  let ?p = "window (buf (shared s)) lo hi'"
  obtain acc err where ac: "accept snk (length (wlog s)) ?p = (acc, err)"
    by (cases "accept snk (length (wlog s)) ?p")
  note c = cut_slice[OF ring pt hi'_def]
  from accept_take[OF ac] obtain m where m: "m \<le> length ?p" "acc = take m ?p" "length acc = m"
    by auto
  have p: "?p = take (nat (hi' - lo)) (drop (length (sunk s)) (sourced s))"
    using written_slice[OF ring data pt hi'_def] .
  from data have pre: "prefix (sunk s) (sourced s)" by (simp add: data_inv_def)
  then have sunk: "sunk s = take (length (sunk s)) (sourced s)"
    by (metis append_eq_conv_conj prefixE)
  have "acc = take m (drop (length (sunk s)) (sourced s))"
    using m(1,2) c(7) unfolding p by (simp add: min_def)
  then have "sunk s @ acc = take (length (sunk s) + m) (sourced s)"
    using sunk by (metis take_add)
  then have pre': "prefix (sunk s @ acc) (sourced s)" by (metis take_is_prefix)
  from data pt pre' m(3) show ?thesis
    unfolding WriteTo_write_eq[OF hi'_def ac] data_inv_def by simp
qed

lemma data_inv_step:
  assumes "ring_inv s \<and> data_inv s" "step snk ev s = Some s'"
  shows "ring_inv s' \<and> data_inv s'"
proof (rule step_preserves[where I = "\<lambda>u. ring_inv u \<and> data_inv u", OF _ _ _ _ _ _ _ _ _ _ _ _ _ assms],
    goal_cases)
  case (1 u t) then show ?case by (simp add: ring_inv_clock data_inv_clock)
next
  case (2 u) then show ?case by (simp add: ring_inv_def)
next
  case (3 u t0 t1) then show ?case by (simp add: ring_inv_r_entry data_inv_r_entry)
next
  case (4 u t lo hi u') then show ?case by (auto intro: ring_inv_r_read data_inv_r_read)
next
  case (5 u n dur) then show ?case by (auto intro: ring_inv_r_commit data_inv_r_commit)
next
  case (6 u n e dur) then show ?case by (auto intro: ring_inv_r_error data_inv_r_error)
next
  case (7 u t) then show ?case by (simp add: ring_inv_r_woken data_inv_r_woken)
next
  case (8 u t0 t1) then show ?case by (simp add: ring_inv_w_entry data_inv_w_entry)
next
  case (9 u t lo hi) then show ?case by (simp add: ring_inv_w_write data_inv_w_write)
next
  case (10 u n dur) then show ?case by (auto intro: ring_inv_w_commit data_inv_w_commit)
next
  case (11 u t n e dur) then show ?case by (auto intro: ring_inv_w_error data_inv_w_error)
next
  case (12 u t) then show ?case by (simp add: ring_inv_w_top data_inv_w_top)
next
  case (13 u t) then show ?case by (simp add: ring_inv_stats data_inv_stats)
qed

lemma data_inv_Copy: "New c = Some b \<Longrightarrow> 1 \<le> c \<Longrightarrow> data_inv (Copy b src)"
  by (auto simp: data_inv_def Copy_def New_fields)

lemma data_inv_exec:
  "ring_inv s \<and> data_inv s \<Longrightarrow> exec snk evs s = Some s' \<Longrightarrow> ring_inv s' \<and> data_inv s'"
  by (rule exec_preserves[where I = "\<lambda>u. ring_inv u \<and> data_inv u"]) (rule data_inv_step)

subsection \<open>Waiting, returning and the recorded errors\<close>

lemma sync_inv_clock: "sync_inv (s\<lparr>clock := t\<rparr>) = sync_inv s"
  by (simp add: sync_inv_def)

lemma sync_inv_stats: "sync_inv (s\<lparr>snaps := x\<rparr>) = sync_inv s"
  by (simp add: sync_inv_def)

lemma sync_inv_r_top:
  "sync_inv s \<Longrightarrow> rpoint s = R_Entry \<or> rpoint s = R_Signalled \<Longrightarrow> sync_inv (ReadFrom_top t s)"
  by (auto simp: sync_inv_def ReadFrom_top_def upd_def split: prod.splits)

lemma sync_inv_r_entry: "sync_inv s \<Longrightarrow> rpoint s = R_Entry \<Longrightarrow> sync_inv (ReadFrom_entry t0 t1 s)"
  unfolding ReadFrom_entry_def by (intro sync_inv_r_top) (auto simp: sync_inv_def upd_def)

lemma sync_inv_r_read:
  assumes "sync_inv s" "rpoint s = R_Reading lo hi" "ReadFrom_read t lo hi s = Some s'"
  shows "sync_inv s'"
proof -
  from assms(3) obtain chunk err src' where
    "s' = s\<lparr>shared := (shared s)\<lparr>buf := copy_at (buf (shared s)) (nat lo) chunk\<rparr>,
            source := src', sourced := sourced s @ chunk,
            rsum := rsum s + int (length chunk),
            rpoint := R_Relock (int (length chunk)) err (t - lastReadStarted (shared s))\<rparr>"
    by (rule ReadFrom_read_Some)
  with assms(1,2) show ?thesis by (auto simp: sync_inv_def)
qed

lemma returned_ok_by_writer: "returned_ok r rd None we \<Longrightarrow> returned_ok r rd' re' we"
  by (cases r) auto

lemma sync_inv_r_commit:
  "sync_inv s \<Longrightarrow> rpoint s = R_Relock n e dur \<Longrightarrow>
   sync_inv ((ReadFrom_commit n dur s)\<lparr>rpoint := R_Signalled\<rparr>)"
  by (cases "wpoint s")
     (auto simp: sync_inv_def ReadFrom_commit_def upd_def signal_by_reader_def
       intro: returned_ok_by_writer)

lemma sync_inv_r_error:
  "sync_inv s \<Longrightarrow> rpoint s = R_Relock n x dur \<Longrightarrow>
   sync_inv ((upd (\<lambda>b. b\<lparr>readError := Some e\<rparr>) (ReadFrom_commit n dur s))
               \<lparr>rpoint := R_Returned (if e = EOF then None else Some e)\<rparr>)"
  by (cases "wpoint s")
     (auto simp: sync_inv_def ReadFrom_commit_def upd_def signal_by_reader_def
       intro: returned_ok_by_writer)

lemma sync_inv_r_woken: "sync_inv s \<Longrightarrow> rpoint s = R_Signalled \<Longrightarrow> sync_inv (ReadFrom_woken t s)"
  using sync_inv_r_top[of s t]
  by (auto simp: ReadFrom_woken_def ReadFrom_full_def split: option.splits) (auto simp: sync_inv_def)

lemma sync_inv_w_top:
  "ring_inv s \<Longrightarrow> sync_inv s \<Longrightarrow> wpoint s = W_Entry \<or> wpoint s = W_Signalled \<Longrightarrow>
   sync_inv (WriteTo_top t s)"
  by (cases "rpoint s")
     (auto simp: ring_inv_def sync_inv_def WriteTo_top_def WriteTo_return_def upd_def
       split: prod.splits option.splits)

lemma sync_inv_w_entry:
  "ring_inv s \<Longrightarrow> sync_inv s \<Longrightarrow> wpoint s = W_Entry \<Longrightarrow> sync_inv (WriteTo_entry t0 t1 s)"
  unfolding WriteTo_entry_def by (intro sync_inv_w_top) (auto simp: ring_inv_def sync_inv_def upd_def)

lemma sync_inv_w_write:
  assumes "sync_inv s" "wpoint s = W_Writing lo hi"
  shows "sync_inv (WriteTo_write snk t lo hi s)"
proof -
  define hi' where "hi' = (if hi - lo > maxWrite (shared s) then lo + maxWrite (shared s) else hi)"
  obtain acc err where ac: "accept snk (length (wlog s)) (window (buf (shared s)) lo hi') = (acc, err)"
    by (cases "accept snk (length (wlog s)) (window (buf (shared s)) lo hi')")
  from assms show ?thesis
    unfolding WriteTo_write_eq[OF hi'_def ac] by (auto simp: sync_inv_def)
qed

lemma sync_inv_w_commit:
  "sync_inv s \<Longrightarrow> wpoint s = W_Relock n e dur \<Longrightarrow>
   sync_inv ((WriteTo_commit n dur s)\<lparr>wpoint := W_Signalled\<rparr>)"
  by (cases "rpoint s") (auto simp: sync_inv_def WriteTo_commit_def upd_def signal_by_writer_def)

lemma sync_inv_w_error:
  "sync_inv s \<Longrightarrow> wpoint s = W_Relock n x dur \<Longrightarrow>
   sync_inv (WriteTo_return t (Some e) (upd (\<lambda>b. b\<lparr>writeError := Some e\<rparr>) (WriteTo_commit n dur s)))"
  by (cases "rpoint s")
     (auto simp: sync_inv_def WriteTo_commit_def WriteTo_return_def upd_def signal_by_writer_def)

lemma sync_inv_step:
  assumes "ring_inv s \<and> sync_inv s" "step snk ev s = Some s'"
  shows "ring_inv s' \<and> sync_inv s'"
proof (rule step_preserves[where I = "\<lambda>u. ring_inv u \<and> sync_inv u", OF _ _ _ _ _ _ _ _ _ _ _ _ _ assms],
    goal_cases)
  case (1 u t) then show ?case by (simp add: ring_inv_clock sync_inv_clock)
next
  case (2 u) then show ?case by (simp add: ring_inv_def)
next
  case (3 u t0 t1) then show ?case by (simp add: ring_inv_r_entry sync_inv_r_entry)
next
  case (4 u t lo hi u') then show ?case by (auto intro: ring_inv_r_read sync_inv_r_read)
next
  case (5 u n dur) then show ?case by (auto intro: ring_inv_r_commit sync_inv_r_commit)
next
  case (6 u n e dur) then show ?case
    using ring_inv_r_error[of u n "Some e" dur] sync_inv_r_error[of u n "Some e" dur e] by auto
next
  case (7 u t) then show ?case by (simp add: ring_inv_r_woken sync_inv_r_woken)
next
  case (8 u t0 t1) then show ?case by (simp add: ring_inv_w_entry sync_inv_w_entry)
next
  case (9 u t lo hi) then show ?case by (simp add: ring_inv_w_write sync_inv_w_write)
next
  case (10 u n dur) then show ?case by (auto intro: ring_inv_w_commit sync_inv_w_commit)
next
  case (11 u t n e dur) then show ?case by (auto intro: ring_inv_w_error sync_inv_w_error)
next
  case (12 u t) then show ?case by (simp add: ring_inv_w_top sync_inv_w_top)
next
  case (13 u t) then show ?case by (simp add: ring_inv_stats sync_inv_stats)
qed

lemma sync_inv_Copy: "New c = Some b \<Longrightarrow> sync_inv (Copy b src)"
  by (auto simp: sync_inv_def Copy_def New_fields)

lemma sync_inv_exec:
  "ring_inv s \<and> sync_inv s \<Longrightarrow> exec snk evs s = Some s' \<Longrightarrow> ring_inv s' \<and> sync_inv s'"
  by (rule exec_preserves[where I = "\<lambda>u. ring_inv u \<and> sync_inv u"]) (rule sync_inv_step)

text \<open>All of it, from the start of \<open>Copy\<close>.\<close>

lemma Copy_invariants:
  assumes "New c = Some b" "1 \<le> c" "exec snk evs (Copy b src) = Some s"
  shows "ring_inv s" "log_inv s" "data_inv s" "sync_inv s" "cap (shared s) = c"
proof -
  note r = ring_inv_Copy[OF assms(1,2), of src]
  show "ring_inv s" using ring_inv_exec[OF r assms(3)] .
  show "log_inv s" using log_inv_exec[OF _ assms(3)] r log_inv_Copy by blast
  show "data_inv s" using data_inv_exec[OF _ assms(3)] r data_inv_Copy[OF assms(1,2)] by blast
  show "sync_inv s" using sync_inv_exec[OF _ assms(3)] r sync_inv_Copy[OF assms(1)] by blast
  show "cap (shared s) = c" using cap_exec[OF r assms(3)] New_fields(2)[OF assms(1)]
    by (simp add: Copy_def)
qed

text \<open>
  While \<open>Read\<close> and \<open>Write\<close> are both under way, their slices do not overlap: the bytes
  that \<open>Read\<close> stores and those that \<open>Write\<close> loads are different cells of the storage,
  so that it does not matter at which moment of the call each of them is moved.
\<close>

lemma io_slices_disjoint:
  assumes "New c = Some b" "1 \<le> c" "exec snk evs (Copy b src) = Some s"
    and "rpoint s = R_Reading lo hi" "wpoint s = W_Writing lo' hi'"
  shows "hi \<le> lo' \<or> hi' \<le> lo"
proof -
  note inv = Copy_invariants[OF assms(1-3)]
  let ?ri = "readIndex (shared s)" and ?rd = "ready (shared s)" and ?c = "cap (shared s)"
  from inv(1) assms(4,5) have r: "0 < ?c" "0 \<le> ?ri" "?ri < ?c" "0 \<le> ?rd" "?rd \<le> ?c"
    "lo = ?ri" "hi \<le> ?c" "?rd + (hi - lo) \<le> ?c"
    "lo' = (?ri - ?rd) mod ?c" "hi' \<le> ?c" "hi' - lo' \<le> ?rd"
    by (simp_all add: ring_inv_def)
  show ?thesis
  proof (cases "?ri - ?rd \<ge> 0")
    case True
    with r have "(?ri - ?rd) mod ?c = ?ri - ?rd" by simp
    with r show ?thesis by simp
  next
    case False
    with r have "(?ri - ?rd) mod ?c = ?ri - ?rd + ?c" by (intro mod_below) auto
    with r show ?thesis by simp
  qed
qed

subsection \<open>After a return, after a write error\<close>

text \<open>What the writer has done stays as it is once it has returned.\<close>

lemma writer_done_step:
  assumes "ring_inv s \<and> wpoint s = W_Returned r \<and> wlog s = l \<and> sunk s = k \<and> wsum s = n \<and>
           writeError (shared s) = we"
    and "step snk ev s = Some s'"
  shows "ring_inv s' \<and> wpoint s' = W_Returned r \<and> wlog s' = l \<and> sunk s' = k \<and> wsum s' = n \<and>
         writeError (shared s') = we"
proof (rule step_preserves[where I = "\<lambda>u. ring_inv u \<and> wpoint u = W_Returned r \<and> wlog u = l \<and>
      sunk u = k \<and> wsum u = n \<and> writeError (shared u) = we", OF _ _ _ _ _ _ _ _ _ _ _ _ _ assms],
    goal_cases)
  case (1 u t) then show ?case by (simp add: ring_inv_clock)
next
  case (2 u) then show ?case by (simp add: ring_inv_def)
next
  case (3 u t0 t1) then show ?case
    by (simp add: ring_inv_r_entry) (simp add: ReadFrom_entry_def ReadFrom_top_def upd_def split: prod.splits)
next
  case (4 u t lo hi u')
  from 4(5) obtain chunk err src' where
    "u' = u\<lparr>shared := (shared u)\<lparr>buf := copy_at (buf (shared u)) (nat lo) chunk\<rparr>,
            source := src', sourced := sourced u @ chunk,
            rsum := rsum u + int (length chunk),
            rpoint := R_Relock (int (length chunk)) err (t - lastReadStarted (shared u))\<rparr>"
    by (rule ReadFrom_read_Some)
  with 4 show ?case by (auto intro: ring_inv_r_read)
next
  case (5 u m dur) then show ?case
    using ring_inv_r_commit[of u m None dur]
    by (auto simp: ReadFrom_commit_def upd_def signal_by_reader_def)
next
  case (6 u m e dur) then show ?case
    using ring_inv_r_error[of u m "Some e" dur]
    by (auto simp: ReadFrom_commit_def upd_def signal_by_reader_def)
next
  case (7 u t) then show ?case
    by (simp add: ring_inv_r_woken)
       (simp add: ReadFrom_woken_def ReadFrom_full_def ReadFrom_top_def upd_def split: option.splits prod.splits)
qed (simp_all add: ring_inv_stats)

lemma writer_done_exec:
  assumes "ring_inv s" "wpoint s = W_Returned r" "exec snk evs s = Some s'"
  shows "wpoint s' = W_Returned r \<and> wlog s' = wlog s \<and> sunk s' = sunk s \<and> wsum s' = wsum s \<and>
         writeError (shared s') = writeError (shared s)"
proof -
  have "ring_inv s' \<and> wpoint s' = W_Returned r \<and> wlog s' = wlog s \<and> sunk s' = sunk s \<and>
        wsum s' = wsum s \<and> writeError (shared s') = writeError (shared s)"
    by (rule exec_preserves[where I = "\<lambda>u. ring_inv u \<and> wpoint u = W_Returned r \<and> wlog u = wlog s \<and>
          sunk u = sunk s \<and> wsum u = wsum s \<and> writeError (shared u) = writeError (shared s)",
          OF _ _ assms(3)])
       (rule writer_done_step, assumption+, simp add: assms)
  then show ?thesis by simp
qed

text \<open>
  A \<open>Write\<close> that has returned an error, and \<open>WriteTo\<close> not yet with the lock: whatever
  runs first, nothing is written, and \<open>WriteTo\<close> is at that point or has returned the
  error.
\<close>

lemma write_failing_step:
  assumes "ring_inv s \<and> wlog s = l \<and> sunk s = k \<and> wsum s = m \<and>
           (wpoint s = W_Relock n (Some e) dur \<or>
            wpoint s = W_Returned (Some (Errorf ''write error'' e)) \<and>
            writeError (shared s) = Some (Errorf ''write error'' e))"
    and "step snk ev s = Some s'"
  shows "ring_inv s' \<and> wlog s' = l \<and> sunk s' = k \<and> wsum s' = m \<and>
         (wpoint s' = W_Relock n (Some e) dur \<or>
          wpoint s' = W_Returned (Some (Errorf ''write error'' e)) \<and>
          writeError (shared s') = Some (Errorf ''write error'' e))"
proof (rule step_preserves[where I = "\<lambda>u. ring_inv u \<and> wlog u = l \<and> sunk u = k \<and> wsum u = m \<and>
      (wpoint u = W_Relock n (Some e) dur \<or>
       wpoint u = W_Returned (Some (Errorf ''write error'' e)) \<and>
       writeError (shared u) = Some (Errorf ''write error'' e))",
      OF _ _ _ _ _ _ _ _ _ _ _ _ _ assms], goal_cases)
  case (1 u t) then show ?case by (simp add: ring_inv_clock)
next
  case (2 u) then show ?case by (simp add: ring_inv_def)
next
  case (3 u t0 t1) then show ?case
    by (simp add: ring_inv_r_entry) (simp add: ReadFrom_entry_def ReadFrom_top_def upd_def split: prod.splits)
next
  case (4 u t lo hi u')
  from 4(5) obtain chunk err src' where
    "u' = u\<lparr>shared := (shared u)\<lparr>buf := copy_at (buf (shared u)) (nat lo) chunk\<rparr>,
            source := src', sourced := sourced u @ chunk,
            rsum := rsum u + int (length chunk),
            rpoint := R_Relock (int (length chunk)) err (t - lastReadStarted (shared u))\<rparr>"
    by (rule ReadFrom_read_Some)
  with 4 show ?case by (auto intro: ring_inv_r_read)
next
  case (5 u j d) then show ?case
    using ring_inv_r_commit[of u j None d]
    by (auto simp: ReadFrom_commit_def upd_def signal_by_reader_def)
next
  case (6 u j x d) then show ?case
    using ring_inv_r_error[of u j "Some x" d]
    by (auto simp: ReadFrom_commit_def upd_def signal_by_reader_def)
next
  case (7 u t)
  then have "ring_inv (ReadFrom_woken t u)" by (simp add: ring_inv_r_woken)
  moreover have "wlog (ReadFrom_woken t u) = wlog u" "sunk (ReadFrom_woken t u) = sunk u"
    "wsum (ReadFrom_woken t u) = wsum u" "wpoint (ReadFrom_woken t u) = wpoint u"
    "writeError (shared (ReadFrom_woken t u)) = writeError (shared u)"
    by (simp_all add: ReadFrom_woken_def ReadFrom_full_def ReadFrom_top_def upd_def
        split: option.splits prod.splits)
  ultimately show ?case using 7 by simp
next
  case (11 u t j x d) then show ?case
    using ring_inv_w_error[of u j "Some x" d t "Some (Errorf ''write error'' x)"
        "Some (Errorf ''write error'' x)"]
    by (auto simp: WriteTo_return_def WriteTo_commit_def upd_def signal_by_writer_def)
qed (simp_all add: ring_inv_stats)

lemma write_failing_exec:
  assumes "ring_inv s" "wpoint s = W_Relock n (Some e) dur" "exec snk evs s = Some s'"
  shows "wlog s' = wlog s \<and> sunk s' = sunk s \<and> wsum s' = wsum s \<and>
         (wpoint s' = W_Relock n (Some e) dur \<or>
          wpoint s' = W_Returned (Some (Errorf ''write error'' e)) \<and>
          writeError (shared s') = Some (Errorf ''write error'' e))"
proof -
  have "ring_inv s' \<and> wlog s' = wlog s \<and> sunk s' = sunk s \<and> wsum s' = wsum s \<and>
        (wpoint s' = W_Relock n (Some e) dur \<or>
         wpoint s' = W_Returned (Some (Errorf ''write error'' e)) \<and>
         writeError (shared s') = Some (Errorf ''write error'' e))"
    by (rule exec_preserves[where I = "\<lambda>u. ring_inv u \<and> wlog u = wlog s \<and> sunk u = sunk s \<and>
          wsum u = wsum s \<and>
          (wpoint u = W_Relock n (Some e) dur \<or>
           wpoint u = W_Returned (Some (Errorf ''write error'' e)) \<and>
           writeError (shared u) = Some (Errorf ''write error'' e))",
          OF _ _ assms(3)])
       (rule write_failing_step, assumption+, simp add: assms)
  then show ?thesis by simp
qed

text \<open>With a write error recorded, the reader starts no other \<open>Read\<close>.\<close>

lemma no_read_step:
  assumes "ring_inv s \<and> sync_inv s \<and> writeError (shared s) = Some we \<and> rlog s = l"
    and "step snk ev s = Some s'"
  shows "ring_inv s' \<and> sync_inv s' \<and> writeError (shared s') = Some we \<and> rlog s' = l"
proof (rule step_preserves[where I = "\<lambda>u. ring_inv u \<and> sync_inv u \<and> writeError (shared u) = Some we \<and>
      rlog u = l", OF _ _ _ _ _ _ _ _ _ _ _ _ _ assms], goal_cases)
  case (1 u t) then show ?case by (simp add: ring_inv_clock sync_inv_clock)
next
  case (2 u) then show ?case by (simp add: ring_inv_def)
next
  case (3 u t0 t1) then show ?case by (auto simp: sync_inv_def)
next
  case (4 u t lo hi u')
  from 4(5) obtain chunk err src' where
    "u' = u\<lparr>shared := (shared u)\<lparr>buf := copy_at (buf (shared u)) (nat lo) chunk\<rparr>,
            source := src', sourced := sourced u @ chunk,
            rsum := rsum u + int (length chunk),
            rpoint := R_Relock (int (length chunk)) err (t - lastReadStarted (shared u))\<rparr>"
    by (rule ReadFrom_read_Some)
  with 4 show ?case by (auto intro: ring_inv_r_read sync_inv_r_read)
next
  case (5 u m dur) then show ?case
    using ring_inv_r_commit[of u m None dur] sync_inv_r_commit[of u m None dur]
    by (auto simp: ReadFrom_commit_def upd_def signal_by_reader_def)
next
  case (6 u m e dur) then show ?case
    using ring_inv_r_error[of u m "Some e" dur] sync_inv_r_error[of u m "Some e" dur e]
    by (auto simp: ReadFrom_commit_def upd_def signal_by_reader_def)
next
  case (7 u t) then show ?case
    by (simp add: ring_inv_r_woken sync_inv_r_woken) (simp add: ReadFrom_woken_def)
next
  case (8 u t0 t1) then show ?case by (auto simp: sync_inv_def)
next
  case (9 u t lo hi) then show ?case by (auto simp: sync_inv_def)
next
  case (10 u m dur) then show ?case by (auto simp: sync_inv_def)
next
  case (11 u t m e dur) then show ?case by (auto simp: sync_inv_def)
next
  case (12 u t) then show ?case by (auto simp: sync_inv_def)
next
  case (13 u t) then show ?case by (simp add: ring_inv_stats sync_inv_stats)
qed

lemma no_read_exec:
  assumes "ring_inv s" "sync_inv s" "writeError (shared s) = Some we" "exec snk evs s = Some s'"
  shows "rlog s' = rlog s"
proof -
  have "ring_inv s' \<and> sync_inv s' \<and> writeError (shared s') = Some we \<and> rlog s' = rlog s"
    by (rule exec_preserves[where I = "\<lambda>u. ring_inv u \<and> sync_inv u \<and>
          writeError (shared u) = Some we \<and> rlog u = rlog s", OF _ _ assms(4)])
       (rule no_read_step, assumption+, simp add: assms)
  then show ?thesis by simp
qed

text \<open>The bytes of the source: those handed out, and those to come.\<close>

lemma input_step:
  assumes "step snk ev s = Some s'"
  shows "sourced s' @ concat (map fst (source s')) = sourced s @ concat (map fst (source s))"
proof -
  define x where "x = sourced s @ concat (map fst (source s))"
  have *: "sourced (ReadFrom_top t u) = sourced u" "source (ReadFrom_top t u) = source u" for t u
    by (simp_all add: ReadFrom_top_def upd_def split: prod.splits)
  have **: "sourced (WriteTo_top t u) = sourced u" "source (WriteTo_top t u) = source u" for t u
    by (simp_all add: WriteTo_top_def WriteTo_return_def upd_def split: prod.splits option.splits)
  from assms obtain u where u: "act snk ev u = Some s'" "sourced u = sourced s" "source u = source s"
    by (auto simp: step_def split: if_splits)
  have "sourced s' @ concat (map fst (source s')) = sourced u @ concat (map fst (source u))"
  proof (cases ev)
    case (Reader_locks t0 t1)
    with u(1) show ?thesis
      by (cases "rpoint u")
         (auto simp: * ReadFrom_entry_def ReadFrom_relock_def ReadFrom_woken_def ReadFrom_full_def
           ReadFrom_commit_def upd_def signal_by_reader_def Let_def split: option.splits if_splits)
  next
    case (Read_returns t)
    with u(1) obtain lo hi where "ReadFrom_read t lo hi u = Some s'"
      by (auto split: rpoint.splits)
    then obtain chunk err src' where
      "answer (nat (hi - lo)) (source u) = Some (chunk, err, src')"
      "s' = u\<lparr>shared := (shared u)\<lparr>buf := copy_at (buf (shared u)) (nat lo) chunk\<rparr>,
            source := src', sourced := sourced u @ chunk,
            rsum := rsum u + int (length chunk),
            rpoint := R_Relock (int (length chunk)) err (t - lastReadStarted (shared u))\<rparr>"
      by (rule ReadFrom_read_Some)
    then show ?thesis using answer_concat by fastforce
  next
    case (Writer_locks t0 t1)
    with u(1) show ?thesis
      by (cases "wpoint u")
         (auto simp: ** WriteTo_entry_def WriteTo_relock_def WriteTo_woken_def WriteTo_return_def
           WriteTo_commit_def upd_def signal_by_writer_def Let_def split: option.splits if_splits)
  next
    case (Write_returns t)
    with u(1) show ?thesis
      by (auto simp: WriteTo_write_def Let_def split: wpoint.splits prod.splits)
  next
    case (Stats_called t)
    with u(1) show ?thesis by auto
  qed
  with u show ?thesis by simp
qed

lemma input_exec:
  "exec snk evs s = Some s' \<Longrightarrow>
   sourced s' @ concat (map fst (source s')) = sourced s @ concat (map fst (source s))"
proof (induction evs arbitrary: s)
  case Nil
  then show ?case by simp
next
  case (Cons ev evs)
  then show ?case by (auto split: option.splits dest: input_step)
qed

subsection \<open>The clock and the snapshots\<close>

lemma Stats_fields:
  "BufferCapacity (Buffer_Stats t b) = cap b"
  "BufferedBytes (Buffer_Stats t b) = ready b"
  "BytesRead (Buffer_Stats t b) = totalBytesRead b"
  "TotalTime (Buffer_Stats t b) = totalTimeSpent b + (if timeStarted b \<noteq> 0 then t - timeStarted b else 0)"
  "TimeSpentReading (Buffer_Stats t b) =
     timeSpentReading b + (if lastReadStarted b \<noteq> 0 then t - lastReadStarted b else 0)"
  "TimeSpentWriting (Buffer_Stats t b) =
     timeSpentWriting b + (if lastWriteStarted b \<noteq> 0 then t - lastWriteStarted b else 0)"
  by (simp_all add: Buffer_Stats_def IsZero_def Let_def)

lemma snap_le_refl: "snap_le x x"
  by (simp add: snap_le_def)

lemma snap_le_trans: "snap_le x y \<Longrightarrow> snap_le y z \<Longrightarrow> snap_le x z"
  by (auto simp: snap_le_def)

lemma snap_inv_mono:
  assumes "snap_inv s" "snaps s' = snaps s" "snap_le (current s) (current s')"
    "cap (shared s') = cap (shared s)"
  shows "snap_inv s'"
  using assms by (auto simp: snap_inv_def list_all_iff intro: snap_le_trans)

lemma time_inv_clock: "time_inv s \<Longrightarrow> clock s \<le> t \<Longrightarrow> time_inv (s\<lparr>clock := t\<rparr>)"
  by (cases "rpoint s"; cases "wpoint s") (auto simp: time_inv_def)

lemma snap_inv_clock: "snap_inv s \<Longrightarrow> clock s \<le> t \<Longrightarrow> snap_inv (s\<lparr>clock := t\<rparr>)"
  by (erule snap_inv_mono) (auto simp: current_def snap_le_def Stats_fields)

lemma time_inv_r_top:
  "time_inv s \<Longrightarrow> clock s = t \<Longrightarrow> time_inv (ReadFrom_top t s)"
  by (auto simp: time_inv_def ReadFrom_top_def upd_def split: prod.splits)

lemma snap_inv_r_top: "snap_inv s \<Longrightarrow> snap_inv (ReadFrom_top t s)"
  by (erule snap_inv_mono)
     (auto simp: current_def snap_le_def Stats_fields ReadFrom_top_def upd_def split: prod.splits)

lemma time_inv_r_entry:
  "time_inv s \<Longrightarrow> clock s = t1 \<Longrightarrow> time_inv (ReadFrom_entry t0 t1 s)"
  unfolding ReadFrom_entry_def by (intro time_inv_r_top) (auto simp: time_inv_def upd_def)

lemma snap_inv_timeStarted:
  assumes "snap_inv s" "t0 \<le> clock s"
  shows "snap_inv (upd (\<lambda>b. if IsZero (timeStarted b) then b\<lparr>timeStarted := t0\<rparr> else b) s)"
  using assms(1)
  by (rule snap_inv_mono) (use assms(2) in \<open>auto simp: current_def snap_le_def Stats_fields upd_def IsZero_def\<close>)

lemma snap_inv_r_entry:
  "snap_inv s \<Longrightarrow> t0 \<le> t1 \<Longrightarrow> clock s = t1 \<Longrightarrow> snap_inv (ReadFrom_entry t0 t1 s)"
  unfolding ReadFrom_entry_def by (intro snap_inv_r_top snap_inv_timeStarted) auto

lemma time_snap_r_read:
  assumes "ring_inv s" "time_inv s" "snap_inv s" "rpoint s = R_Reading lo hi" "clock s = t"
    and "ReadFrom_read t lo hi s = Some s'"
  shows "time_inv s'" "snap_inv s'"
proof -
  from assms(6) obtain chunk err src' where
    a: "answer (nat (hi - lo)) (source s) = Some (chunk, err, src')"
    and s': "s' = s\<lparr>shared := (shared s)\<lparr>buf := copy_at (buf (shared s)) (nat lo) chunk\<rparr>,
            source := src', sourced := sourced s @ chunk,
            rsum := rsum s + int (length chunk),
            rpoint := R_Relock (int (length chunk)) err (t - lastReadStarted (shared s))\<rparr>"
    by (rule ReadFrom_read_Some)
  from assms(2,4,5) show "time_inv s'" unfolding s' by (auto simp: time_inv_def)
  have cap': "cap (shared s') = cap (shared s)" using cap_ReadFrom_read[OF assms(1,4,6)] .
  show "snap_inv s'"
    by (rule snap_inv_mono[OF assms(3) _ _ cap']) (auto simp: s' current_def snap_le_def Stats_fields)
qed

lemma time_inv_r_commit:
  "time_inv s \<Longrightarrow> time_inv ((ReadFrom_commit n dur s)\<lparr>rpoint := R_Signalled\<rparr>)"
  by (cases "wpoint s") (auto simp: time_inv_def ReadFrom_commit_def upd_def signal_by_reader_def)

lemma snap_inv_r_commit:
  "snap_inv s \<Longrightarrow> 0 \<le> n \<Longrightarrow> snap_inv ((ReadFrom_commit n dur s)\<lparr>rpoint := x\<rparr>)"
  by (erule snap_inv_mono)
     (auto simp: current_def snap_le_def Stats_fields ReadFrom_commit_def upd_def signal_by_reader_def)

lemma time_inv_r_error:
  "time_inv s \<Longrightarrow>
   time_inv ((upd (\<lambda>b. b\<lparr>readError := x\<rparr>) (ReadFrom_commit n dur s))\<lparr>rpoint := R_Returned y\<rparr>)"
  by (cases "wpoint s") (auto simp: time_inv_def ReadFrom_commit_def upd_def signal_by_reader_def)

lemma snap_inv_r_error:
  "snap_inv s \<Longrightarrow> 0 \<le> n \<Longrightarrow>
   snap_inv ((upd (\<lambda>b. b\<lparr>readError := x\<rparr>) (ReadFrom_commit n dur s))\<lparr>rpoint := y\<rparr>)"
  by (erule snap_inv_mono)
     (auto simp: current_def snap_le_def Stats_fields ReadFrom_commit_def upd_def signal_by_reader_def)

lemma time_inv_r_woken: "time_inv s \<Longrightarrow> clock s = t \<Longrightarrow> time_inv (ReadFrom_woken t s)"
  using time_inv_r_top[of s t]
  by (auto simp: ReadFrom_woken_def ReadFrom_full_def split: option.splits) (auto simp: time_inv_def)

lemma snap_inv_r_woken: "snap_inv s \<Longrightarrow> snap_inv (ReadFrom_woken t s)"
  using snap_inv_r_top[of s t]
  by (auto simp: ReadFrom_woken_def ReadFrom_full_def split: option.splits)
     (auto simp: snap_inv_def current_def)

lemma time_inv_w_top: "time_inv s \<Longrightarrow> clock s = t \<Longrightarrow> time_inv (WriteTo_top t s)"
  by (cases "rpoint s")
     (auto simp: time_inv_def WriteTo_top_def WriteTo_return_def upd_def split: prod.splits option.splits)

lemma snap_inv_return:
  "snap_inv s \<Longrightarrow> clock s = t \<Longrightarrow> 0 < t \<Longrightarrow> snap_inv (WriteTo_return t r s)"
  by (erule snap_inv_mono) (auto simp: current_def snap_le_def Stats_fields WriteTo_return_def upd_def)

lemma snap_inv_w_top: "snap_inv s \<Longrightarrow> clock s = t \<Longrightarrow> 0 < t \<Longrightarrow> snap_inv (WriteTo_top t s)"
  using snap_inv_return[of s t]
  by (auto simp: WriteTo_top_def split: prod.splits option.splits)
     (auto simp: snap_inv_def current_def upd_def Stats_fields snap_le_def list_all_iff)

lemma time_inv_w_entry: "time_inv s \<Longrightarrow> clock s = t1 \<Longrightarrow> time_inv (WriteTo_entry t0 t1 s)"
  unfolding WriteTo_entry_def by (intro time_inv_w_top) (auto simp: time_inv_def upd_def)

lemma snap_inv_w_entry:
  "snap_inv s \<Longrightarrow> 0 < t0 \<Longrightarrow> t0 \<le> t1 \<Longrightarrow> clock s = t1 \<Longrightarrow> snap_inv (WriteTo_entry t0 t1 s)"
  unfolding WriteTo_entry_def by (intro snap_inv_w_top snap_inv_timeStarted) (auto simp: upd_def)

lemma time_inv_w_write:
  assumes "time_inv s" "wpoint s = W_Writing lo hi" "clock s = t"
  shows "time_inv (WriteTo_write snk t lo hi s)"
proof -
  define hi' where "hi' = (if hi - lo > maxWrite (shared s) then lo + maxWrite (shared s) else hi)"
  obtain acc err where ac: "accept snk (length (wlog s)) (window (buf (shared s)) lo hi') = (acc, err)"
    by (cases "accept snk (length (wlog s)) (window (buf (shared s)) lo hi')")
  from assms show ?thesis
    unfolding WriteTo_write_eq[OF hi'_def ac] by (auto simp: time_inv_def)
qed

lemma snap_inv_w_write:
  assumes "snap_inv s"
  shows "snap_inv (WriteTo_write snk t lo hi s)"
proof -
  define hi' where "hi' = (if hi - lo > maxWrite (shared s) then lo + maxWrite (shared s) else hi)"
  obtain acc err where ac: "accept snk (length (wlog s)) (window (buf (shared s)) lo hi') = (acc, err)"
    by (cases "accept snk (length (wlog s)) (window (buf (shared s)) lo hi')")
  from assms show ?thesis
    unfolding WriteTo_write_eq[OF hi'_def ac]
    by (rule snap_inv_mono) (auto simp: current_def snap_le_def Stats_fields)
qed

lemma time_inv_w_commit:
  "time_inv s \<Longrightarrow> time_inv ((WriteTo_commit n dur s)\<lparr>wpoint := W_Signalled\<rparr>)"
  by (cases "rpoint s") (auto simp: time_inv_def WriteTo_commit_def upd_def signal_by_writer_def)

lemma snap_inv_w_commit:
  "snap_inv s \<Longrightarrow> snap_inv ((WriteTo_commit n dur s)\<lparr>wpoint := x\<rparr>)"
  by (erule snap_inv_mono)
     (auto simp: current_def snap_le_def Stats_fields WriteTo_commit_def upd_def signal_by_writer_def)

lemma time_inv_w_error:
  "time_inv s \<Longrightarrow>
   time_inv (WriteTo_return t y (upd (\<lambda>b. b\<lparr>writeError := x\<rparr>) (WriteTo_commit n dur s)))"
  by (cases "rpoint s")
     (auto simp: time_inv_def WriteTo_commit_def WriteTo_return_def upd_def signal_by_writer_def)

lemma snap_inv_w_error:
  "snap_inv s \<Longrightarrow> clock s = t \<Longrightarrow> 0 < t \<Longrightarrow>
   snap_inv (WriteTo_return t y (upd (\<lambda>b. b\<lparr>writeError := x\<rparr>) (WriteTo_commit n dur s)))"
  by (erule snap_inv_mono)
     (auto simp: current_def snap_le_def Stats_fields WriteTo_commit_def WriteTo_return_def upd_def
       signal_by_writer_def)

lemma time_inv_stats: "time_inv (s\<lparr>snaps := x\<rparr>) = time_inv s"
  by (simp add: time_inv_def)

lemma snap_inv_stats:
  assumes "ring_inv s" "snap_inv s" "clock s = t"
  shows "snap_inv (s\<lparr>snaps := snaps s @ [Buffer_Stats t (shared s)]\<rparr>)"
proof -
  from assms(1) have "snap_ok (cap (shared s)) (Buffer_Stats t (shared s))"
    by (simp add: snap_ok_def Stats_fields ring_inv_def)
  with assms(2,3) show ?thesis
    by (auto simp: snap_inv_def current_def sorted_wrt_append list_all_iff snap_le_refl)
qed

lemma time_step:
  assumes "ring_inv s \<and> time_inv s \<and> snap_inv s" "step snk ev s = Some s'"
  shows "ring_inv s' \<and> time_inv s' \<and> snap_inv s'"
proof (rule step_preserves[where I = "\<lambda>u. ring_inv u \<and> time_inv u \<and> snap_inv u",
      OF _ _ _ _ _ _ _ _ _ _ _ _ _ assms], goal_cases)
  case (1 u t) then show ?case by (simp add: ring_inv_clock time_inv_clock snap_inv_clock)
next
  case (2 u) then show ?case by (simp add: ring_inv_def)
next
  case (3 u t0 t1) then show ?case by (simp add: ring_inv_r_entry time_inv_r_entry snap_inv_r_entry)
next
  case (4 u t lo hi u') then show ?case
    using time_snap_r_read[of u lo hi t u'] by (auto intro: ring_inv_r_read)
next
  case (5 u n dur)
  then have "0 \<le> n" by (auto simp: ring_inv_def)
  with 5 show ?case by (auto intro: ring_inv_r_commit time_inv_r_commit snap_inv_r_commit)
next
  case (6 u n e dur)
  then have "0 \<le> n" by (auto simp: ring_inv_def)
  with 6 show ?case
    using ring_inv_r_error[of u n "Some e" dur] time_inv_r_error[where s=u] snap_inv_r_error[where s=u and n=n] by auto
next
  case (7 u t) then show ?case by (simp add: ring_inv_r_woken time_inv_r_woken snap_inv_r_woken)
next
  case (8 u t0 t1) then show ?case by (simp add: ring_inv_w_entry time_inv_w_entry snap_inv_w_entry)
next
  case (9 u t lo hi) then show ?case by (simp add: ring_inv_w_write time_inv_w_write snap_inv_w_write)
next
  case (10 u n dur) then show ?case by (auto intro: ring_inv_w_commit time_inv_w_commit snap_inv_w_commit)
next
  case (11 u t n e dur) then show ?case
    by (auto intro: ring_inv_w_error time_inv_w_error snap_inv_w_error)
next
  case (12 u t) then show ?case by (simp add: ring_inv_w_top time_inv_w_top snap_inv_w_top)
next
  case (13 u t) then show ?case by (simp add: ring_inv_stats time_inv_stats snap_inv_stats)
qed

lemma time_Copy: "time_inv (Copy b src)" "snap_inv (Copy b src)"
  by (simp_all add: time_inv_def snap_inv_def Copy_def)

lemma time_exec:
  "ring_inv s \<and> time_inv s \<and> snap_inv s \<Longrightarrow> exec snk evs s = Some s' \<Longrightarrow>
   ring_inv s' \<and> time_inv s' \<and> snap_inv s'"
  by (rule exec_preserves[where I = "\<lambda>u. ring_inv u \<and> time_inv u \<and> snap_inv u"]) (rule time_step)

text \<open>The accumulated times of reading and of writing do not go down.\<close>

lemma spent_ReadFrom_top:
  "timeSpentReading (shared (ReadFrom_top t s)) = timeSpentReading (shared s)"
  "timeSpentWriting (shared (ReadFrom_top t s)) = timeSpentWriting (shared s)"
  "totalBytesRead (shared (ReadFrom_top t s)) = totalBytesRead (shared s)"
  by (simp_all add: ReadFrom_top_def upd_def split: prod.splits)

lemma spent_ReadFrom_woken:
  "timeSpentReading (shared (ReadFrom_woken t s)) = timeSpentReading (shared s)"
  "timeSpentWriting (shared (ReadFrom_woken t s)) = timeSpentWriting (shared s)"
  "totalBytesRead (shared (ReadFrom_woken t s)) = totalBytesRead (shared s)"
  by (simp_all add: ReadFrom_woken_def ReadFrom_full_def spent_ReadFrom_top split: option.splits)

lemma spent_WriteTo_top:
  "timeSpentReading (shared (WriteTo_top t s)) = timeSpentReading (shared s)"
  "timeSpentWriting (shared (WriteTo_top t s)) = timeSpentWriting (shared s)"
  "totalBytesRead (shared (WriteTo_top t s)) = totalBytesRead (shared s)"
  by (simp_all add: WriteTo_top_def WriteTo_return_def upd_def split: prod.splits option.splits)

lemma spent_step:
  assumes "ring_inv s \<and> time_inv s \<and> a \<le> timeSpentReading (shared s) \<and>
           b \<le> timeSpentWriting (shared s) \<and> k \<le> totalBytesRead (shared s)"
    and "step snk ev s = Some s'"
  shows "ring_inv s' \<and> time_inv s' \<and> a \<le> timeSpentReading (shared s') \<and>
         b \<le> timeSpentWriting (shared s') \<and> k \<le> totalBytesRead (shared s')"
proof (rule step_preserves[where I = "\<lambda>u. ring_inv u \<and> time_inv u \<and> a \<le> timeSpentReading (shared u) \<and>
      b \<le> timeSpentWriting (shared u) \<and> k \<le> totalBytesRead (shared u)",
      OF _ _ _ _ _ _ _ _ _ _ _ _ _ assms], goal_cases)
  case (1 u t) then show ?case by (simp add: ring_inv_clock time_inv_clock)
next
  case (2 u) then show ?case by (simp add: ring_inv_def)
next
  case (3 u t0 t1) then show ?case
    by (simp add: ring_inv_r_entry time_inv_r_entry)
       (simp add: ReadFrom_entry_def spent_ReadFrom_top upd_def)
next
  case (4 u t lo hi u')
  from 4(5) obtain chunk err src' where
    "u' = u\<lparr>shared := (shared u)\<lparr>buf := copy_at (buf (shared u)) (nat lo) chunk\<rparr>,
            source := src', sourced := sourced u @ chunk,
            rsum := rsum u + int (length chunk),
            rpoint := R_Relock (int (length chunk)) err (t - lastReadStarted (shared u))\<rparr>"
    by (rule ReadFrom_read_Some)
  with 4 show ?case by (auto intro: ring_inv_r_read simp: time_inv_def)
next
  case (5 u n dur)
  then have "0 \<le> dur" "0 \<le> n" by (auto simp: time_inv_def ring_inv_def)
  with 5 show ?case
    using ring_inv_r_commit[of u n None dur] time_inv_r_commit[where s=u and n=n and dur=dur]
    by (auto simp: ReadFrom_commit_def upd_def signal_by_reader_def)
next
  case (6 u n e dur)
  then have "0 \<le> dur" "0 \<le> n" by (auto simp: time_inv_def ring_inv_def)
  with 6 show ?case
    using ring_inv_r_error[of u n "Some e" dur] time_inv_r_error[where s=u and n=n and dur=dur]
    by (auto simp: ReadFrom_commit_def upd_def signal_by_reader_def)
next
  case (7 u t) then show ?case by (simp add: ring_inv_r_woken time_inv_r_woken spent_ReadFrom_woken)
next
  case (8 u t0 t1) then show ?case
    by (simp add: ring_inv_w_entry time_inv_w_entry)
       (simp add: WriteTo_entry_def spent_WriteTo_top upd_def)
next
  case (9 u t lo hi) then show ?case
    by (simp add: ring_inv_w_write time_inv_w_write)
       (simp add: WriteTo_write_def Let_def split: prod.splits)
next
  case (10 u n dur)
  then have "0 \<le> dur" by (auto simp: time_inv_def)
  with 10 show ?case
    using ring_inv_w_commit[of u n None dur] time_inv_w_commit[where s=u and n=n and dur=dur]
    by (auto simp: WriteTo_commit_def upd_def signal_by_writer_def)
next
  case (11 u t n e dur)
  then have "0 \<le> dur" by (auto simp: time_inv_def)
  with 11 show ?case
    using ring_inv_w_error[of u n "Some e" dur] time_inv_w_error[where s=u and t=t and n=n and dur=dur]
    by (auto simp: WriteTo_commit_def WriteTo_return_def upd_def signal_by_writer_def)
next
  case (12 u t) then show ?case by (simp add: ring_inv_w_top time_inv_w_top spent_WriteTo_top)
next
  case (13 u t) then show ?case by (simp add: ring_inv_stats time_inv_stats)
qed

lemma spent_exec:
  assumes "ring_inv s" "time_inv s" "exec snk evs s = Some s'"
  shows "timeSpentReading (shared s) \<le> timeSpentReading (shared s')"
    "timeSpentWriting (shared s) \<le> timeSpentWriting (shared s')"
    "totalBytesRead (shared s) \<le> totalBytesRead (shared s')"
proof -
  have "ring_inv s' \<and> time_inv s' \<and> timeSpentReading (shared s) \<le> timeSpentReading (shared s') \<and>
        timeSpentWriting (shared s) \<le> timeSpentWriting (shared s') \<and>
        totalBytesRead (shared s) \<le> totalBytesRead (shared s')"
    by (rule exec_preserves[where I = "\<lambda>u. ring_inv u \<and> time_inv u \<and>
          timeSpentReading (shared s) \<le> timeSpentReading (shared u) \<and>
          timeSpentWriting (shared s) \<le> timeSpentWriting (shared u) \<and>
          totalBytesRead (shared s) \<le> totalBytesRead (shared u)", OF _ _ assms(3)])
       (rule spent_step, assumption+, simp add: assms)
  then show "timeSpentReading (shared s) \<le> timeSpentReading (shared s')"
    "timeSpentWriting (shared s) \<le> timeSpentWriting (shared s')"
    "totalBytesRead (shared s) \<le> totalBytesRead (shared s')" by simp_all
qed

subsection \<open>A source that ends and a sink that does not fail\<close>

lemma eof_script_nonempty: "eof_script src \<Longrightarrow> src \<noteq> []"
  by (cases src) auto

lemma calm_inv_clock: "calm_inv (s\<lparr>clock := t\<rparr>) = calm_inv s"
  by (simp add: calm_inv_def)

lemma calm_inv_stats: "calm_inv (s\<lparr>snaps := x\<rparr>) = calm_inv s"
  by (simp add: calm_inv_def)

lemma calm_inv_r_top:
  "calm_inv s \<Longrightarrow> rpoint s = R_Entry \<or> rpoint s = R_Signalled \<Longrightarrow> calm_inv (ReadFrom_top t s)"
  by (auto simp: calm_inv_def ReadFrom_top_def upd_def split: prod.splits)

lemma calm_inv_r_entry: "calm_inv s \<Longrightarrow> rpoint s = R_Entry \<Longrightarrow> calm_inv (ReadFrom_entry t0 t1 s)"
  unfolding ReadFrom_entry_def by (intro calm_inv_r_top) (auto simp: calm_inv_def upd_def)

lemma calm_inv_r_read:
  assumes "calm_inv s" "rpoint s = R_Reading lo hi" "ReadFrom_read t lo hi s = Some s'"
  shows "calm_inv s'"
proof -
  from assms(3) obtain chunk err src' where
    a: "answer (nat (hi - lo)) (source s) = Some (chunk, err, src')"
    and s': "s' = s\<lparr>shared := (shared s)\<lparr>buf := copy_at (buf (shared s)) (nat lo) chunk\<rparr>,
            source := src', sourced := sourced s @ chunk,
            rsum := rsum s + int (length chunk),
            rpoint := R_Relock (int (length chunk)) err (t - lastReadStarted (shared s))\<rparr>"
    by (rule ReadFrom_read_Some)
  from assms(1,2) have "eof_script (source s)" "readError (shared s) = None"
    by (auto simp: calm_inv_def)
  with answer_eof[OF a] assms(1) show ?thesis
    unfolding s' by (auto simp: calm_inv_def)
qed

lemma calm_inv_r_commit:
  "calm_inv s \<Longrightarrow> rpoint s = R_Relock n None dur \<Longrightarrow>
   calm_inv ((ReadFrom_commit n dur s)\<lparr>rpoint := R_Signalled\<rparr>)"
  by (cases "wpoint s") (auto simp: calm_inv_def ReadFrom_commit_def upd_def signal_by_reader_def)

lemma calm_inv_r_error:
  "calm_inv s \<Longrightarrow> rpoint s = R_Relock n (Some e) dur \<Longrightarrow>
   calm_inv ((upd (\<lambda>b. b\<lparr>readError := Some e\<rparr>) (ReadFrom_commit n dur s))
               \<lparr>rpoint := R_Returned (if e = EOF then None else Some e)\<rparr>)"
  by (cases "wpoint s") (auto simp: calm_inv_def ReadFrom_commit_def upd_def signal_by_reader_def)

lemma calm_inv_r_woken: "calm_inv s \<Longrightarrow> rpoint s = R_Signalled \<Longrightarrow> calm_inv (ReadFrom_woken t s)"
  using calm_inv_r_top[of s t]
  by (auto simp: ReadFrom_woken_def ReadFrom_full_def split: option.splits) (auto simp: calm_inv_def)

lemma calm_reader_error: "calm_reader r src (Some e) \<Longrightarrow> e = EOF"
  by (cases "(r, src, Some e)" rule: calm_reader.cases) auto

lemma calm_inv_w_top:
  "calm_inv s \<Longrightarrow> wpoint s = W_Entry \<or> wpoint s = W_Signalled \<Longrightarrow> calm_inv (WriteTo_top t s)"
  by (auto simp: calm_inv_def WriteTo_top_def WriteTo_return_def upd_def
      split: prod.splits option.splits dest: calm_reader_error)

lemma calm_inv_w_entry: "calm_inv s \<Longrightarrow> wpoint s = W_Entry \<Longrightarrow> calm_inv (WriteTo_entry t0 t1 s)"
  unfolding WriteTo_entry_def by (intro calm_inv_w_top) (auto simp: calm_inv_def upd_def)

lemma calm_inv_w_write:
  assumes "never_fails snk" "calm_inv s" "wpoint s = W_Writing lo hi"
  shows "calm_inv (WriteTo_write snk t lo hi s)"
proof -
  define hi' where "hi' = (if hi - lo > maxWrite (shared s) then lo + maxWrite (shared s) else hi)"
  obtain acc err where ac: "accept snk (length (wlog s)) (window (buf (shared s)) lo hi') = (acc, err)"
    by (cases "accept snk (length (wlog s)) (window (buf (shared s)) lo hi')")
  with assms(1) have "err = None"
    by (auto simp: accept_def never_fails_def split: prod.splits) (metis snd_conv)
  with assms(2,3) show ?thesis
    unfolding WriteTo_write_eq[OF hi'_def ac] by (auto simp: calm_inv_def)
qed

lemma calm_inv_w_commit:
  "calm_inv s \<Longrightarrow> wpoint s = W_Relock n None dur \<Longrightarrow>
   calm_inv ((WriteTo_commit n dur s)\<lparr>wpoint := W_Signalled\<rparr>)"
  by (cases "rpoint s") (auto simp: calm_inv_def WriteTo_commit_def upd_def signal_by_writer_def)

lemma calm_step:
  assumes "never_fails snk" "ring_inv s \<and> calm_inv s" "step snk ev s = Some s'"
  shows "ring_inv s' \<and> calm_inv s'"
proof (rule step_preserves[where I = "\<lambda>u. ring_inv u \<and> calm_inv u", OF _ _ _ _ _ _ _ _ _ _ _ _ _ assms(2,3)],
    goal_cases)
  case (1 u t) then show ?case by (simp add: ring_inv_clock calm_inv_clock)
next
  case (2 u) then show ?case by (simp add: ring_inv_def)
next
  case (3 u t0 t1) then show ?case by (simp add: ring_inv_r_entry calm_inv_r_entry)
next
  case (4 u t lo hi u') then show ?case by (auto intro: ring_inv_r_read calm_inv_r_read)
next
  case (5 u n dur) then show ?case by (auto intro: ring_inv_r_commit calm_inv_r_commit)
next
  case (6 u n e dur) then show ?case
    using ring_inv_r_error[of u n "Some e" dur] calm_inv_r_error[of u n e dur] by auto
next
  case (7 u t) then show ?case by (simp add: ring_inv_r_woken calm_inv_r_woken)
next
  case (8 u t0 t1) then show ?case by (simp add: ring_inv_w_entry calm_inv_w_entry)
next
  case (9 u t lo hi) then show ?case by (simp add: ring_inv_w_write calm_inv_w_write assms(1))
next
  case (10 u n dur) then show ?case by (auto intro: ring_inv_w_commit calm_inv_w_commit)
next
  case (11 u t n e dur) then show ?case by (auto simp: calm_inv_def)
next
  case (12 u t) then show ?case by (simp add: ring_inv_w_top calm_inv_w_top)
next
  case (13 u t) then show ?case by (simp add: ring_inv_stats calm_inv_stats)
qed

lemma calm_Copy: "New c = Some b \<Longrightarrow> eof_script src \<Longrightarrow> calm_inv (Copy b src)"
  by (simp add: calm_inv_def Copy_def New_fields)

lemma calm_exec:
  assumes "never_fails snk" "New c = Some b" "1 \<le> c" "eof_script src"
    and "exec snk evs (Copy b src) = Some s"
  shows "calm_inv s"
proof -
  have "ring_inv s \<and> calm_inv s"
    by (rule exec_preserves[where I = "\<lambda>u. ring_inv u \<and> calm_inv u", OF _ _ assms(5)])
       (rule calm_step[OF assms(1)], assumption+,
        simp add: ring_inv_Copy[OF assms(2,3)] calm_Copy[OF assms(2,4)])
  then show ?thesis ..
qed

text \<open>When \<open>WriteTo\<close> has returned nil, the sink has all that the source has handed out.\<close>

lemma Copy_result_clean:
  assumes "data_inv s" "sync_inv s" "wpoint s = W_Returned None"
  shows "sunk s = sourced s" "wsum s = int (length (sourced s))" "rpoint s = R_Returned None"
    "readError (shared s) = Some EOF"
proof -
  from assms(2,3) have r: "ready (shared s) = 0" "readError (shared s) = Some EOF"
    by (auto simp: sync_inv_def)
  with assms(2) show pt: "rpoint s = R_Returned None" by (auto simp: sync_inv_def)
  from assms(1,3) pt r have "length (sunk s) = length (sourced s)" "prefix (sunk s) (sourced s)"
    "wsum s = int (length (sunk s))"
    by (auto simp: data_inv_def)
  then show "sunk s = sourced s" "wsum s = int (length (sourced s))"
    by (auto simp: prefix_def)
  show "readError (shared s) = Some EOF" by fact
qed

text \<open>What a step does to the measure.\<close>

lemma ReadFrom_top_shape:
  "source (ReadFrom_top t s) = source s \<and> sourced (ReadFrom_top t s) = sourced s \<and>
   sunk (ReadFrom_top t s) = sunk s \<and> wpoint (ReadFrom_top t s) = wpoint s \<and>
   r_rank (rpoint (ReadFrom_top t s)) = 0"
  by (simp add: ReadFrom_top_def upd_def split: prod.splits)

lemma ReadFrom_woken_shape:
  "source (ReadFrom_woken t s) = source s \<and> sourced (ReadFrom_woken t s) = sourced s \<and>
   sunk (ReadFrom_woken t s) = sunk s \<and> wpoint (ReadFrom_woken t s) = wpoint s \<and>
   r_rank (rpoint (ReadFrom_woken t s)) = 0"
  by (simp add: ReadFrom_woken_def ReadFrom_full_def ReadFrom_top_shape split: option.splits)

lemma ReadFrom_entry_shape:
  "source (ReadFrom_entry t0 t1 s) = source s \<and> sourced (ReadFrom_entry t0 t1 s) = sourced s \<and>
   sunk (ReadFrom_entry t0 t1 s) = sunk s \<and> wpoint (ReadFrom_entry t0 t1 s) = wpoint s \<and>
   r_rank (rpoint (ReadFrom_entry t0 t1 s)) = 0"
  by (simp add: ReadFrom_entry_def ReadFrom_top_shape) (simp add: upd_def)

lemma ReadFrom_commit_shape:
  "source (ReadFrom_commit n d s) = source s \<and> sourced (ReadFrom_commit n d s) = sourced s \<and>
   sunk (ReadFrom_commit n d s) = sunk s \<and>
   w_rank (wpoint (ReadFrom_commit n d s)) \<le> w_rank (wpoint s) + 1"
  by (simp add: ReadFrom_commit_def upd_def signal_by_reader_def)

lemma ReadFrom_relock_shape:
  "source (ReadFrom_relock t n e d s) = source s \<and> sourced (ReadFrom_relock t n e d s) = sourced s \<and>
   sunk (ReadFrom_relock t n e d s) = sunk s \<and>
   w_rank (wpoint (ReadFrom_relock t n e d s)) \<le> w_rank (wpoint s) + 1 \<and>
   r_rank (rpoint (ReadFrom_relock t n e d s)) = 0"
proof (cases "cap (shared s) = 0")
  case True
  then show ?thesis by (simp add: ReadFrom_relock_def)
next
  case False
  show ?thesis
  proof (cases e)
    case None
    with False show ?thesis
      using ReadFrom_commit_shape[of n d s]
      by (simp add: ReadFrom_relock_None ReadFrom_woken_shape)
  next
    case (Some x)
    with False show ?thesis
      using ReadFrom_commit_shape[of n d s]
      by (simp add: ReadFrom_relock_def Let_def upd_def)
  qed
qed

lemma WriteTo_top_shape:
  "source (WriteTo_top t s) = source s \<and> sourced (WriteTo_top t s) = sourced s \<and>
   sunk (WriteTo_top t s) = sunk s \<and> rpoint (WriteTo_top t s) = rpoint s \<and>
   w_rank (wpoint (WriteTo_top t s)) = 0"
  by (simp add: WriteTo_top_def WriteTo_return_def upd_def split: prod.splits option.splits)

lemma WriteTo_entry_shape:
  "source (WriteTo_entry t0 t1 s) = source s \<and> sourced (WriteTo_entry t0 t1 s) = sourced s \<and>
   sunk (WriteTo_entry t0 t1 s) = sunk s \<and> rpoint (WriteTo_entry t0 t1 s) = rpoint s \<and>
   w_rank (wpoint (WriteTo_entry t0 t1 s)) = 0"
  by (simp add: WriteTo_entry_def WriteTo_top_shape) (simp add: upd_def)

lemma WriteTo_commit_shape:
  "source (WriteTo_commit n d s) = source s \<and> sourced (WriteTo_commit n d s) = sourced s \<and>
   sunk (WriteTo_commit n d s) = sunk s \<and>
   r_rank (rpoint (WriteTo_commit n d s)) \<le> r_rank (rpoint s) + 1"
  by (simp add: WriteTo_commit_def upd_def signal_by_writer_def)

lemma WriteTo_relock_shape:
  "source (WriteTo_relock t n e d s) = source s \<and> sourced (WriteTo_relock t n e d s) = sourced s \<and>
   sunk (WriteTo_relock t n e d s) = sunk s \<and>
   r_rank (rpoint (WriteTo_relock t n e d s)) \<le> r_rank (rpoint s) + 1 \<and>
   w_rank (wpoint (WriteTo_relock t n e d s)) = 0"
proof (cases e)
  case None
  then show ?thesis
    using WriteTo_commit_shape[of n d s] by (simp add: WriteTo_relock_None WriteTo_top_shape)
next
  case (Some x)
  then show ?thesis
    using WriteTo_commit_shape[of n d s]
    by (simp add: WriteTo_relock_def Let_def WriteTo_return_def upd_def)
qed

lemma left_clock: "left (s\<lparr>clock := t\<rparr>) = left s"
  by (simp add: left_def)

lemma left_step:
  assumes "ring_inv s" "data_inv s" "step full_sink ev s = Some s'"
  shows "left s' + (if is_Stats ev then 0 else 1) \<le> left s"
proof -
  define u where "u = s\<lparr>clock := last_reading ev\<rparr>"
  from assms(3) have a: "act full_sink ev u = Some s'"
    by (auto simp: step_def u_def split: if_splits)
  have u: "ring_inv u" "data_inv u" "left u = left s"
    using assms(1,2) by (simp_all add: u_def ring_inv_clock data_inv_clock left_clock)
  have "left s' + (if is_Stats ev then 0 else 1) \<le> left u"
  proof (cases ev)
    case (Reader_locks t0 t1)
    show ?thesis
    proof (cases "rpoint u")
      case R_Entry
      with a Reader_locks show ?thesis
        using ReadFrom_entry_shape[of t0 t1 u] by (auto simp: left_def)
    next
      case (R_Relock n e d)
      with a Reader_locks show ?thesis
        using ReadFrom_relock_shape[of t1 n e d u] by (auto simp: left_def)
    next
      case R_Signalled
      with a Reader_locks show ?thesis
        using ReadFrom_woken_shape[of t1 u] by (auto simp: left_def)
    qed (use a Reader_locks in auto)
  next
    case (Read_returns t)
    with a obtain lo hi where pt: "rpoint u = R_Reading lo hi" and rd: "ReadFrom_read t lo hi u = Some s'"
      by (auto split: rpoint.splits)
    from rd obtain chunk err src' where
      an: "answer (nat (hi - lo)) (source u) = Some (chunk, err, src')"
      and s': "s' = u\<lparr>shared := (shared u)\<lparr>buf := copy_at (buf (shared u)) (nat lo) chunk\<rparr>,
            source := src', sourced := sourced u @ chunk,
            rsum := rsum u + int (length chunk),
            rpoint := R_Relock (int (length chunk)) err (t - lastReadStarted (shared u))\<rparr>"
      by (rule ReadFrom_read_Some)
    from u(1) pt have "1 \<le> nat (hi - lo)" by (auto simp: ring_inv_def)
    note l = answer_left[OF an this]
    from u(2) have "length (sunk u) \<le> length (sourced u)"
      by (auto simp: data_inv_def dest: prefix_length_le)
    moreover have "chunk \<noteq> [] \<Longrightarrow> 1 \<le> length chunk" by (cases chunk) auto
    ultimately show ?thesis using l pt Read_returns
      unfolding s' by (cases "chunk = []") (auto simp: left_def)
  next
    case (Writer_locks t0 t1)
    show ?thesis
    proof (cases "wpoint u")
      case W_Entry
      with a Writer_locks show ?thesis
        using WriteTo_entry_shape[of t0 t1 u] by (auto simp: left_def)
    next
      case (W_Relock n e d)
      with a Writer_locks show ?thesis
        using WriteTo_relock_shape[of t1 n e d u] by (auto simp: left_def)
    next
      case W_Signalled
      with a Writer_locks show ?thesis
        using WriteTo_top_shape[of t1 u] by (auto simp: left_def WriteTo_woken_def)
    qed (use a Writer_locks in auto)
  next
    case (Write_returns t)
    with a obtain lo hi where pt: "wpoint u = W_Writing lo hi" and s': "s' = WriteTo_write full_sink t lo hi u"
      by (auto split: wpoint.splits)
    define hi' where "hi' = (if hi - lo > maxWrite (shared u) then lo + maxWrite (shared u) else hi)"
    let ?p = "window (buf (shared u)) lo hi'"
    note c = cut_slice[OF u(1) pt hi'_def]
    have eq: "s' = u\<lparr>wlog := wlog u @ [?p], sunk := sunk u @ ?p, wsum := wsum u + int (length ?p),
        wpoint := W_Relock (int (length ?p)) None (t - lastWriteStarted (shared u))\<rparr>"
      unfolding s' by (rule WriteTo_write_eq[OF hi'_def accept_full])
    have "data_inv s'" unfolding s' by (rule data_inv_w_write[OF u(1,2) pt])
    then have "length (sunk u) + length ?p \<le> length (sourced u)"
      unfolding eq by (auto simp: data_inv_def dest: prefix_length_le)
    moreover have "1 \<le> length ?p" using c(2,7) by simp
    ultimately show ?thesis using pt Write_returns
      unfolding eq by (auto simp: left_def)
  next
    case (Stats_called t)
    with a show ?thesis by (auto simp: left_def)
  qed
  with u(3) show ?thesis by simp
qed

lemma moves_bound:
  "ring_inv s \<and> data_inv s \<Longrightarrow> exec full_sink evs s = Some s' \<Longrightarrow> moves evs + left s' \<le> left s"
proof (induction evs arbitrary: s)
  case Nil
  then show ?case by (simp add: moves_def)
next
  case (Cons ev evs)
  from Cons.prems obtain u where u: "step full_sink ev s = Some u" "exec full_sink evs u = Some s'"
    by (auto split: option.splits)
  from data_inv_step[OF Cons.prems(1) u(1)] have inv: "ring_inv u \<and> data_inv u" .
  from left_step[OF _ _ u(1)] Cons.prems(1)
  have "left u + (if is_Stats ev then 0 else 1) \<le> left s" by simp
  with Cons.IH[OF inv u(2)] show ?case by (auto simp: moves_def)
qed

text \<open>While \<open>WriteTo\<close> has not returned, a step can be taken.\<close>

lemma next_event_enabled:
  assumes "ring_inv s" "sync_inv s" "calm_inv s" "Copy_result s = None"
  shows "\<exists>s'. step snk (next_event s) s = Some s'" "\<not> is_Stats (next_event s)"
proof -
  define t where "t = max 1 (clock s)"
  have t: "0 < t" "clock s \<le> t" by (simp_all add: t_def)
  from assms(1) have nc: "\<not> crashed s" "0 < cap (shared s)"
    by (auto simp: ring_inv_def crashed_def)
  show "\<not> is_Stats (next_event s)"
    by (simp add: next_event_def Let_def split: wpoint.splits rpoint.splits)
  show "\<exists>s'. step snk (next_event s) s = Some s'"
  proof (cases "wpoint s")
    case W_Waiting
    with assms(2) have w: "ready (shared s) = 0" "readError (shared s) = None"
      by (auto simp: sync_inv_def)
    show ?thesis
    proof (cases "rpoint s")
      case (R_Reading lo hi)
      with assms(3) have "source s \<noteq> []" by (auto simp: calm_inv_def dest: eof_script_nonempty)
      then obtain r where "answer (nat (hi - lo)) (source s) = Some r"
        using answer_Some by blast
      with R_Reading W_Waiting nc t show ?thesis
        by (cases r) (simp add: next_event_def t_def[symmetric] step_def timely_def ReadFrom_read_def Let_def)
    next
      case R_Waiting
      with assms(2) w nc show ?thesis by (auto simp: sync_inv_def)
    next
      case (R_Returned r)
      with assms(2,3) w show ?thesis by (auto simp: sync_inv_def calm_inv_def)
    next
      case R_Panicked
      with assms(1) show ?thesis by (simp add: ring_inv_def)
    qed (use W_Waiting nc t in \<open>simp_all add: next_event_def t_def[symmetric] step_def timely_def\<close>)
  next
    case (W_Returned r)
    with assms(4) show ?thesis by (simp add: Copy_result_def)
  next
    case W_Panicked
    with assms(1) show ?thesis by (simp add: ring_inv_def)
  qed (use nc t in \<open>simp_all add: next_event_def t_def[symmetric] step_def timely_def\<close>)
qed

section \<open>The claims\<close>

subsection \<open>The transfer of three bytes\<close>

lemma demo_New: "New 2 = Some demo_buf"
  by code_simp

lemma demo_exec: "exec full_sink demo_run (Copy demo_buf demo_src) = Some demo_final"
  by code_simp

subsection \<open>Chunks, capacity and bounds\<close>

text \<open>
  C3. Every slice that \<open>WriteTo\<close> passes to the sink's \<open>Write\<close> has at most
  \<open>max(1, C/8)\<close> bytes, \<open>C\<close> being the capacity given to \<open>New\<close>: in every state that a run
  of \<open>Copy\<close> reaches, whatever the source, the sink and the schedule, the log of the
  slices passed to \<open>Write\<close> holds only such slices.
\<close>

theorem C3_write_chunk_cap:
  assumes "New c = Some b" "1 \<le> c" "exec snk evs (Copy b src) = Some s"
  shows "\<forall>p \<in> set (wlog s). int (length p) \<le> max 1 (c div 8)"
proof -
  note inv = Copy_invariants[OF assms]
  from inv(2) have "\<forall>p \<in> set (wlog s). int (length p) \<le> maxWrite (shared s)"
    by (simp add: log_inv_def)
  then show ?thesis by (simp add: maxWrite_max inv(5))
qed

theorem C3_write_chunk_cap_witness:
  "New 2 = Some demo_buf \<and> (1::int) \<le> 2 \<and>
   exec full_sink demo_run (Copy demo_buf demo_src) = Some demo_final \<and>
   wlog demo_final = [[97], [98], [99]] \<and>
   list_all (\<lambda>p. int (length p) \<le> max 1 (2 div 8)) (wlog demo_final)"
  using C3_write_chunk_cap[OF demo_New _ demo_exec] demo_New demo_exec
  by (simp add: demo_final_def list_all_iff)

text \<open>
  C4. In every state that a run of \<open>Copy\<close> reaches, with a source and a sink that return
  counts within the slice they were given (as this model's source and sink do),
  \<open>0 \<le> ready \<le> C\<close>, where \<open>C\<close> is the capacity; and the bytes that the source has handed
  out and the sink has not yet accepted are at most \<open>C\<close>. The steps of a run are those of
  \<open>ReadFrom\<close>, of \<open>WriteTo\<close> and of \<open>Stats\<close>.
\<close>

theorem C4_ready_within_capacity:
  assumes "New c = Some b" "1 \<le> c" "exec snk evs (Copy b src) = Some s"
  shows "0 \<le> ready (shared s) \<and> ready (shared s) \<le> c \<and> cap (shared s) = c \<and>
         length (sunk s) \<le> length (sourced s) \<and>
         int (length (sourced s)) - int (length (sunk s)) \<le> c"
proof -
  note inv = Copy_invariants[OF assms]
  from inv(1) have r: "0 \<le> ready (shared s)" "ready (shared s) \<le> cap (shared s)"
    "ready (shared s) + r_pending (rpoint s) \<le> cap (shared s)" "0 \<le> w_pending (wpoint s)"
    by (cases "rpoint s"; cases "wpoint s"; simp add: ring_inv_def)+
  from inv(3) have d: "totalBytesRead (shared s) + r_pending (rpoint s) = int (length (sourced s))"
    "int (length (sunk s)) = totalBytesRead (shared s) - ready (shared s) + w_pending (wpoint s)"
    "prefix (sunk s) (sourced s)"
    by (simp_all add: data_inv_def)
  from d(3) have "length (sunk s) \<le> length (sourced s)" by (rule prefix_length_le)
  with r d(1,2) inv(5) show ?thesis by simp
qed

theorem C4_ready_within_capacity_witness:
  "New 2 = Some demo_buf \<and> (1::int) \<le> 2 \<and>
   (\<exists>s. exec full_sink (take 3 demo_run) (Copy demo_buf demo_src) = Some s \<and>
      ready (shared s) = 2 \<and> 0 \<le> ready (shared s) \<and> ready (shared s) \<le> 2 \<and> cap (shared s) = 2 \<and>
      length (sunk s) \<le> length (sourced s) \<and>
      int (length (sourced s)) - int (length (sunk s)) \<le> 2)"
proof -
  have "map_option (\<lambda>s. ready (shared s)) (exec full_sink (take 3 demo_run) (Copy demo_buf demo_src)) = Some 2"
    by code_simp
  then obtain s where s: "exec full_sink (take 3 demo_run) (Copy demo_buf demo_src) = Some s"
    "ready (shared s) = 2" by auto
  with C4_ready_within_capacity[OF demo_New _ s(1)] demo_New show ?thesis by auto
qed

text \<open>
  C10. For a buffer of capacity \<open>C \<ge> 1\<close>, every slice that \<open>ReadFrom\<close> passes to \<open>Read\<close>
  and every slice that \<open>WriteTo\<close> passes to \<open>Write\<close> has at least one byte, and no
  goroutine panics: the slice expressions and the modulo of a run of \<open>Copy\<close> are in
  bounds. A slice that is in use lies inside the storage.
\<close>

theorem C10_slices_nonempty:
  assumes "New c = Some b" "1 \<le> c" "exec snk evs (Copy b src) = Some s"
  shows "(\<forall>l \<in> set (rlog s). 1 \<le> l \<and> int l \<le> c) \<and>
         (\<forall>p \<in> set (wlog s). 1 \<le> length p \<and> int (length p) \<le> c) \<and>
         \<not> crashed s \<and>
         (\<forall>lo hi. rpoint s = R_Reading lo hi \<longrightarrow> 0 \<le> lo \<and> lo < hi \<and> hi \<le> c) \<and>
         (\<forall>lo hi. wpoint s = W_Writing lo hi \<longrightarrow> 0 \<le> lo \<and> lo < hi \<and> hi \<le> c)"
proof -
  note inv = Copy_invariants[OF assms]
  have mw: "maxWrite (shared s) \<le> c" using assms(2) inv(5) by (auto simp: maxWrite_def Let_def)
  from inv(2) mw have "\<forall>l \<in> set (rlog s). 1 \<le> l \<and> int l \<le> c"
    "\<forall>p \<in> set (wlog s). 1 \<le> length p \<and> int (length p) \<le> c"
    by (auto simp: log_inv_def inv(5))
  moreover from inv(1) have "\<not> crashed s"
    by (auto simp: ring_inv_def crashed_def)
  moreover from inv(1) have "\<forall>lo hi. rpoint s = R_Reading lo hi \<longrightarrow> 0 \<le> lo \<and> lo < hi \<and> hi \<le> c"
    by (auto simp: ring_inv_def inv(5))
  moreover from inv(1) have "\<forall>lo hi. wpoint s = W_Writing lo hi \<longrightarrow> 0 \<le> lo \<and> lo < hi \<and> hi \<le> c"
    by (auto simp: ring_inv_def inv(5))
  ultimately show ?thesis by blast
qed

theorem C10_slices_nonempty_witness:
  "New 2 = Some demo_buf \<and> (1::int) \<le> 2 \<and>
   exec full_sink demo_run (Copy demo_buf demo_src) = Some demo_final \<and>
   rlog demo_final = [2, 1] \<and> wlog demo_final = [[97], [98], [99]] \<and>
   list_all (\<lambda>l. 1 \<le> l \<and> int l \<le> 2) (rlog demo_final) \<and>
   list_all (\<lambda>p. 1 \<le> length p \<and> int (length p) \<le> 2) (wlog demo_final) \<and>
   \<not> crashed demo_final"
  using C10_slices_nonempty[OF demo_New _ demo_exec] demo_New demo_exec
  by (simp add: demo_final_def list_all_iff)

subsection \<open>Stats\<close>

text \<open>
  C7. \<open>Stats\<close> reads the clock once (the parameter \<open>now\<close>) and returns the capacity, the
  buffered bytes, the bytes read, and the three times: each is the accumulated field,
  plus \<open>now\<close> minus the start of the phase when that timestamp is not zero. On a buffer
  that \<open>New\<close> has just made, the byte counts and the times are all zero.
\<close>

theorem C7_Stats:
  "Buffer_Stats now b =
     \<lparr> BufferCapacity = cap b, BufferedBytes = ready b, BytesRead = totalBytesRead b,
       TotalTime = totalTimeSpent b + (if timeStarted b \<noteq> 0 then now - timeStarted b else 0),
       TimeSpentReading =
         timeSpentReading b + (if lastReadStarted b \<noteq> 0 then now - lastReadStarted b else 0),
       TimeSpentWriting =
         timeSpentWriting b + (if lastWriteStarted b \<noteq> 0 then now - lastWriteStarted b else 0) \<rparr>
   \<and> (New c = Some b \<longrightarrow>
        Buffer_Stats now b =
          \<lparr> BufferCapacity = c, BufferedBytes = 0, BytesRead = 0, TotalTime = 0,
            TimeSpentReading = 0, TimeSpentWriting = 0 \<rparr>)"
  by (auto simp: Buffer_Stats_def IsZero_def Let_def New_fields)

theorem C7_Stats_witness:
  "New 2 = Some demo_buf \<and>
   Buffer_Stats 1000 demo_buf =
     \<lparr> BufferCapacity = 2, BufferedBytes = 0, BytesRead = 0, TotalTime = 0,
       TimeSpentReading = 0, TimeSpentWriting = 0 \<rparr>"
  using C7_Stats[of 1000 demo_buf 2, THEN conjunct2] demo_New by simp

subsection \<open>Errors of the sink\<close>

lemma dead_exec: "exec dead_sink dead_run (Copy demo_buf demo_src) = Some dead_writing"
  by code_simp

lemma dead_fails: "step dead_sink (Write_returns 20) dead_writing = Some dead_failed"
  by code_simp

lemma dead_returns: "step dead_sink (Writer_locks 21 21) dead_failed = Some dead_returned"
  by code_simp

lemma dead_exec_returned:
  "exec dead_sink (dead_run @ [Write_returns 20, Writer_locks 21 21]) (Copy demo_buf demo_src)
   = Some dead_returned"
  by (simp add: exec_append dead_exec dead_fails dead_returns)

lemma slow_exec: "exec dead_sink slow_run (Copy demo_buf slow_src) = Some slow_state"
  by code_simp

lemma Write_returns_step:
  assumes "step snk (Write_returns t) s = Some s1" "wpoint s = W_Writing lo hi"
  shows "\<exists>n dur. wpoint s1 = W_Relock n (snd (snk (length (wlog s)))) dur"
  using assms
  by (auto simp: step_def WriteTo_write_def accept_def Let_def split: if_splits prod.splits)

lemma Writer_locks_error:
  assumes "step snk (Writer_locks t0 t1) s1 = Some s2" "wpoint s1 = W_Relock n (Some e) dur"
  shows "writeError (shared s2) = Some (Errorf ''write error'' e)"
    "wpoint s2 = W_Returned (Some (Errorf ''write error'' e))"
    "wlog s2 = wlog s1" "sunk s2 = sunk s1" "wsum s2 = wsum s1"
  using assms
  by (auto simp: step_def WriteTo_relock_def WriteTo_commit_def WriteTo_return_def upd_def
      signal_by_writer_def Let_def split: if_splits)

lemma dead_stats:
  "map_option (\<lambda>s. (wpoint s, sunk s, snaps s \<noteq> [], clock s))
     (exec dead_sink (dead_run @ [Write_returns 20, Stats_called 25]) (Copy demo_buf demo_src))
   = Some (W_Relock 0 (Some (Failure ''broken pipe'')) 2, [], True, 25)"
  by code_simp

text \<open>
  C5. Whenever \<open>Write\<close> returns an error \<open>e\<close>, \<open>WriteTo\<close> holds it while it has not the
  lock again. From every state that a run of \<open>Copy\<close> reaches with \<open>WriteTo\<close> at that
  point, whatever \<open>ReadFrom\<close> and \<open>Stats\<close> have done since \<open>Write\<close> returned: \<open>WriteTo\<close>
  cannot write; it can take the lock at every clock reading; when it does it records
  \<open>fmt.Errorf("write error: %w", e)\<close> in \<open>writeError\<close> and returns it with the number of
  the bytes that the sink has accepted; and in every continuation of the run the log of
  the \<open>Write\<close> calls and the bytes accepted stay as they are, and \<open>WriteTo\<close> is still at
  that point or the error is recorded and returned. Once \<open>WriteTo\<close> has returned, the
  log, the bytes accepted, the result and \<open>writeError\<close> stay as they are.
\<close>

theorem C5_write_error_returned:
  assumes "New c = Some b" "1 \<le> c" "exec snk evs (Copy b src) = Some s"
  shows "(\<forall>lo hi t s1. wpoint s = W_Writing lo hi \<and> snd (snk (length (wlog s))) = Some e \<and>
            step snk (Write_returns t) s = Some s1 \<longrightarrow>
            (\<exists>n dur. wpoint s1 = W_Relock n (Some e) dur)) \<and>
         (\<forall>n dur. wpoint s = W_Relock n (Some e) dur \<longrightarrow>
            (\<forall>t. step snk (Write_returns t) s = None) \<and>
            (\<forall>t0 t1. timely (Writer_locks t0 t1) s \<longrightarrow>
               (\<exists>s2. step snk (Writer_locks t0 t1) s = Some s2)) \<and>
            (\<forall>t0 t1 s2. step snk (Writer_locks t0 t1) s = Some s2 \<longrightarrow>
               writeError (shared s2) = Some (Errorf ''write error'' e) \<and>
               Copy_result s2 = Some (int (length (sunk s2)), Some (Errorf ''write error'' e)) \<and>
               wlog s2 = wlog s \<and> sunk s2 = sunk s) \<and>
            (\<forall>evs' s3. exec snk evs' s = Some s3 \<longrightarrow>
               wlog s3 = wlog s \<and> sunk s3 = sunk s \<and>
               (wpoint s3 = W_Relock n (Some e) dur \<or>
                writeError (shared s3) = Some (Errorf ''write error'' e) \<and>
                Copy_result s3 = Some (int (length (sunk s3)), Some (Errorf ''write error'' e))))) \<and>
         (\<forall>r evs' s3. Copy_result s = Some r \<and> exec snk evs' s = Some s3 \<longrightarrow>
            wlog s3 = wlog s \<and> sunk s3 = sunk s \<and> Copy_result s3 = Some r \<and>
            writeError (shared s3) = writeError (shared s))"
proof -
  note inv = Copy_invariants[OF assms]
  from inv(3) have sum: "wsum s = int (length (sunk s))" by (simp add: data_inv_def)
  from inv(1) have alive: "\<not> crashed s" by (auto simp: ring_inv_def crashed_def)
  have 1: "\<exists>n dur. wpoint s1 = W_Relock n (Some e) dur"
    if "wpoint s = W_Writing lo hi" "snd (snk (length (wlog s))) = Some e"
      "step snk (Write_returns t) s = Some s1" for lo hi t s1
    using Write_returns_step[OF that(3,1)] that(2) by simp
  have 2: "step snk (Write_returns t) s = None" if "wpoint s = W_Relock n (Some e) dur" for n dur t
    using that by (simp add: step_def)
  have 3: "\<exists>s2. step snk (Writer_locks t0 t1) s = Some s2"
    if "wpoint s = W_Relock n (Some e) dur" "timely (Writer_locks t0 t1) s" for n dur t0 t1
    using that alive by (simp add: step_def)
  have 4: "writeError (shared s2) = Some (Errorf ''write error'' e) \<and>
      Copy_result s2 = Some (int (length (sunk s2)), Some (Errorf ''write error'' e)) \<and>
      wlog s2 = wlog s \<and> sunk s2 = sunk s"
    if "wpoint s = W_Relock n (Some e) dur" "step snk (Writer_locks t0 t1) s = Some s2"
    for n dur t0 t1 s2
    using Writer_locks_error[OF that(2,1)] sum by (simp add: Copy_result_def)
  have 5: "wlog s3 = wlog s \<and> sunk s3 = sunk s \<and>
      (wpoint s3 = W_Relock n (Some e) dur \<or>
       writeError (shared s3) = Some (Errorf ''write error'' e) \<and>
       Copy_result s3 = Some (int (length (sunk s3)), Some (Errorf ''write error'' e)))"
    if "wpoint s = W_Relock n (Some e) dur" "exec snk evs' s = Some s3" for n dur evs' s3
    using write_failing_exec[OF inv(1) that] sum by (auto simp: Copy_result_def)
  have 6: "wlog s3 = wlog s \<and> sunk s3 = sunk s \<and> Copy_result s3 = Some r \<and>
      writeError (shared s3) = writeError (shared s)"
    if "Copy_result s = Some r" "exec snk evs' s = Some s3" for r evs' s3
  proof -
    from that(1) obtain x where x: "wpoint s = W_Returned x" "r = (wsum s, x)"
      by (auto simp: Copy_result_def split: wpoint.splits)
    from writer_done_exec[OF inv(1) x(1) that(2)] x show ?thesis by (simp add: Copy_result_def)
  qed
  have A: "\<forall>lo hi t s1. wpoint s = W_Writing lo hi \<and> snd (snk (length (wlog s))) = Some e \<and>
            step snk (Write_returns t) s = Some s1 \<longrightarrow>
            (\<exists>n dur. wpoint s1 = W_Relock n (Some e) dur)"
    using 1 by blast
  have B: "\<forall>n dur. wpoint s = W_Relock n (Some e) dur \<longrightarrow>
            (\<forall>t. step snk (Write_returns t) s = None) \<and>
            (\<forall>t0 t1. timely (Writer_locks t0 t1) s \<longrightarrow>
               (\<exists>s2. step snk (Writer_locks t0 t1) s = Some s2)) \<and>
            (\<forall>t0 t1 s2. step snk (Writer_locks t0 t1) s = Some s2 \<longrightarrow>
               writeError (shared s2) = Some (Errorf ''write error'' e) \<and>
               Copy_result s2 = Some (int (length (sunk s2)), Some (Errorf ''write error'' e)) \<and>
               wlog s2 = wlog s \<and> sunk s2 = sunk s) \<and>
            (\<forall>evs' s3. exec snk evs' s = Some s3 \<longrightarrow>
               wlog s3 = wlog s \<and> sunk s3 = sunk s \<and>
               (wpoint s3 = W_Relock n (Some e) dur \<or>
                writeError (shared s3) = Some (Errorf ''write error'' e) \<and>
                Copy_result s3 = Some (int (length (sunk s3)), Some (Errorf ''write error'' e))))"
  proof (intro allI impI)
    fix n dur
    assume p: "wpoint s = W_Relock n (Some e) dur"
    have b2: "\<forall>t. step snk (Write_returns t) s = None" using 2[OF p] by simp
    have b3: "\<forall>t0 t1. timely (Writer_locks t0 t1) s \<longrightarrow>
               (\<exists>s2. step snk (Writer_locks t0 t1) s = Some s2)"
      using 3[OF p] by simp
    have b4: "\<forall>t0 t1 s2. step snk (Writer_locks t0 t1) s = Some s2 \<longrightarrow>
               writeError (shared s2) = Some (Errorf ''write error'' e) \<and>
               Copy_result s2 = Some (int (length (sunk s2)), Some (Errorf ''write error'' e)) \<and>
               wlog s2 = wlog s \<and> sunk s2 = sunk s"
      using 4[OF p] by (intro allI impI)
    have b5: "\<forall>evs' s3. exec snk evs' s = Some s3 \<longrightarrow>
               wlog s3 = wlog s \<and> sunk s3 = sunk s \<and>
               (wpoint s3 = W_Relock n (Some e) dur \<or>
                writeError (shared s3) = Some (Errorf ''write error'' e) \<and>
                Copy_result s3 = Some (int (length (sunk s3)), Some (Errorf ''write error'' e)))"
      using 5[OF p] by (intro allI impI)
    show "(\<forall>t. step snk (Write_returns t) s = None) \<and>
            (\<forall>t0 t1. timely (Writer_locks t0 t1) s \<longrightarrow>
               (\<exists>s2. step snk (Writer_locks t0 t1) s = Some s2)) \<and>
            (\<forall>t0 t1 s2. step snk (Writer_locks t0 t1) s = Some s2 \<longrightarrow>
               writeError (shared s2) = Some (Errorf ''write error'' e) \<and>
               Copy_result s2 = Some (int (length (sunk s2)), Some (Errorf ''write error'' e)) \<and>
               wlog s2 = wlog s \<and> sunk s2 = sunk s) \<and>
            (\<forall>evs' s3. exec snk evs' s = Some s3 \<longrightarrow>
               wlog s3 = wlog s \<and> sunk s3 = sunk s \<and>
               (wpoint s3 = W_Relock n (Some e) dur \<or>
                writeError (shared s3) = Some (Errorf ''write error'' e) \<and>
                Copy_result s3 = Some (int (length (sunk s3)), Some (Errorf ''write error'' e))))"
      by (rule conjI[OF b2 conjI[OF b3 conjI[OF b4 b5]]])
  qed
  have C: "\<forall>r evs' s3. Copy_result s = Some r \<and> exec snk evs' s = Some s3 \<longrightarrow>
            wlog s3 = wlog s \<and> sunk s3 = sunk s \<and> Copy_result s3 = Some r \<and>
            writeError (shared s3) = writeError (shared s)"
  proof (intro allI impI)
    fix r evs' s3
    assume "Copy_result s = Some r \<and> exec snk evs' s = Some s3"
    then have "Copy_result s = Some r" "exec snk evs' s = Some s3" by simp_all
    then show "wlog s3 = wlog s \<and> sunk s3 = sunk s \<and> Copy_result s3 = Some r \<and>
            writeError (shared s3) = writeError (shared s)"
      by (rule 6)
  qed
  show ?thesis by (rule conjI[OF A conjI[OF B C]])
qed

theorem C5_write_error_returned_witness:
  "New 2 = Some demo_buf \<and> (1::int) \<le> 2 \<and>
   exec dead_sink dead_run (Copy demo_buf demo_src) = Some dead_writing \<and>
   wpoint dead_writing = W_Writing 0 2 \<and>
   snd (dead_sink (length (wlog dead_writing))) = Some (Failure ''broken pipe'') \<and>
   step dead_sink (Write_returns 20) dead_writing = Some dead_failed \<and>
   (\<exists>n dur. wpoint dead_failed = W_Relock n (Some (Failure ''broken pipe'')) dur) \<and>
   (\<exists>s1. exec dead_sink (dead_run @ [Write_returns 20, Stats_called 25]) (Copy demo_buf demo_src)
            = Some s1 \<and>
      wpoint s1 = W_Relock 0 (Some (Failure ''broken pipe'')) 2 \<and> snaps s1 \<noteq> [] \<and>
      timely (Writer_locks 26 26) s1 \<and>
      step dead_sink (Write_returns 26) s1 = None \<and>
      (\<exists>s2. step dead_sink (Writer_locks 26 26) s1 = Some s2 \<and>
         writeError (shared s2) = Some (Errorf ''write error'' (Failure ''broken pipe'')) \<and>
         Copy_result s2 = Some (0, Some (Errorf ''write error'' (Failure ''broken pipe''))) \<and>
         wlog s2 = wlog s1 \<and> sunk s2 = []))"
proof -
  have w: "wpoint dead_writing = W_Writing 0 2"
    "snd (dead_sink (length (wlog dead_writing))) = Some (Failure ''broken pipe'')"
    by (simp_all add: dead_writing_def dead_sink_def)
  have le: "(1::int) \<le> 2" by simp
  note at_write = C5_write_error_returned[OF demo_New le dead_exec, of "Failure ''broken pipe''",
      THEN conjunct1, rule_format, OF conjI[OF w(1) conjI[OF w(2) dead_fails]]]
  then have a: "\<exists>n dur. wpoint dead_failed = W_Relock n (Some (Failure ''broken pipe'')) dur"
    by simp
  from dead_stats obtain s1 where s1:
    "exec dead_sink (dead_run @ [Write_returns 20, Stats_called 25]) (Copy demo_buf demo_src) = Some s1"
    "wpoint s1 = W_Relock 0 (Some (Failure ''broken pipe'')) 2" "sunk s1 = []" "snaps s1 \<noteq> []"
    "clock s1 = 25"
    by auto
  from s1(5) have tm: "timely (Writer_locks 26 26) s1" by (simp add: timely_def)
  note pending = C5_write_error_returned[OF demo_New le s1(1), of "Failure ''broken pipe''",
      THEN conjunct2, THEN conjunct1, rule_format, OF s1(2)]
  note no = pending[THEN conjunct1, rule_format, of 26]
  from pending[THEN conjunct2, THEN conjunct1, rule_format, OF tm]
  obtain s2 where s2: "step dead_sink (Writer_locks 26 26) s1 = Some s2" by (rule exE)
  from pending[THEN conjunct2, THEN conjunct2, THEN conjunct1, rule_format, OF s2] s1(3)
  have res:
    "writeError (shared s2) = Some (Errorf ''write error'' (Failure ''broken pipe''))"
    "Copy_result s2 = Some (0, Some (Errorf ''write error'' (Failure ''broken pipe'')))"
    "wlog s2 = wlog s1" "sunk s2 = []"
    by simp_all
  from s2 res have inner: "\<exists>s2. step dead_sink (Writer_locks 26 26) s1 = Some s2 \<and>
         writeError (shared s2) = Some (Errorf ''write error'' (Failure ''broken pipe'')) \<and>
         Copy_result s2 = Some (0, Some (Errorf ''write error'' (Failure ''broken pipe''))) \<and>
         wlog s2 = wlog s1 \<and> sunk s2 = []"
    by simp
  have outer:
    "\<exists>s1. exec dead_sink (dead_run @ [Write_returns 20, Stats_called 25]) (Copy demo_buf demo_src)
            = Some s1 \<and>
      wpoint s1 = W_Relock 0 (Some (Failure ''broken pipe'')) 2 \<and> snaps s1 \<noteq> [] \<and>
      timely (Writer_locks 26 26) s1 \<and>
      step dead_sink (Write_returns 26) s1 = None \<and>
      (\<exists>s2. step dead_sink (Writer_locks 26 26) s1 = Some s2 \<and>
         writeError (shared s2) = Some (Errorf ''write error'' (Failure ''broken pipe'')) \<and>
         Copy_result s2 = Some (0, Some (Errorf ''write error'' (Failure ''broken pipe''))) \<and>
         wlog s2 = wlog s1 \<and> sunk s2 = [])"
    using s1 tm no inner by (rule_tac x = s1 in exI) simp
  show ?thesis
    by (rule conjI[OF demo_New conjI[OF le conjI[OF dead_exec conjI[OF w(1) conjI[OF w(2)
          conjI[OF dead_fails conjI[OF a outer]]]]]]])
qed

text \<open>
  C6. Once a write error is recorded: when \<open>ReadFrom\<close> takes the lock after a \<open>Read\<close> that
  returned no error, and when it takes the lock after it was woken from the wait on a
  full buffer, it returns the recorded write error with its count of bytes; and in
  every continuation of the run it starts no other \<open>Read\<close> (the log of the \<open>Read\<close> calls
  stays as it is).
\<close>

theorem C6_reader_stops_on_write_error:
  assumes "New c = Some b" "1 \<le> c" "exec snk evs (Copy b src) = Some s"
    and "writeError (shared s) = Some we" "timely (Reader_locks t0 t1) s"
  shows "(\<forall>n dur. rpoint s = R_Relock n None dur \<longrightarrow>
            (\<exists>s'. step snk (Reader_locks t0 t1) s = Some s' \<and>
                  ReadFrom_result s' = Some (rsum s, Some we))) \<and>
         (rpoint s = R_Signalled \<longrightarrow>
            (\<exists>s'. step snk (Reader_locks t0 t1) s = Some s' \<and>
                  ReadFrom_result s' = Some (rsum s, Some we))) \<and>
         (\<forall>evs' s'. exec snk evs' s = Some s' \<longrightarrow> rlog s' = rlog s)"
proof -
  note inv = Copy_invariants[OF assms(1-3)]
  from inv(1) have ok: "\<not> crashed s" "cap (shared s) \<noteq> 0"
    by (auto simp: ring_inv_def crashed_def)
  have a: "\<exists>s'. step snk (Reader_locks t0 t1) s = Some s' \<and> ReadFrom_result s' = Some (rsum s, Some we)"
    if "rpoint s = R_Relock n None dur" for n dur
    using that ok assms(4,5)
    by (simp add: step_def ReadFrom_relock_def ReadFrom_commit_def upd_def signal_by_reader_def
        ReadFrom_result_def Let_def)
  have b: "\<exists>s'. step snk (Reader_locks t0 t1) s = Some s' \<and> ReadFrom_result s' = Some (rsum s, Some we)"
    if "rpoint s = R_Signalled"
    using that ok assms(4,5)
    by (simp add: step_def ReadFrom_woken_def ReadFrom_result_def)
  have c: "rlog s' = rlog s" if "exec snk evs' s = Some s'" for evs' s'
    using no_read_exec[OF inv(1,4) assms(4) that] .
  from a b c show ?thesis by blast
qed

theorem C6_reader_stops_on_write_error_witness:
  "New 2 = Some demo_buf \<and> (1::int) \<le> 2 \<and>
   exec dead_sink slow_run (Copy demo_buf slow_src) = Some slow_state \<and>
   writeError (shared slow_state) = Some (Errorf ''write error'' (Failure ''broken pipe'')) \<and>
   timely (Reader_locks 22 22) slow_state \<and> rpoint slow_state = R_Relock 1 None 3 \<and>
   (\<exists>s'. step dead_sink (Reader_locks 22 22) slow_state = Some s' \<and>
      ReadFrom_result s' = Some (2, Some (Errorf ''write error'' (Failure ''broken pipe'')))) \<and>
   exec dead_sink (dead_run @ [Write_returns 20, Writer_locks 21 21]) (Copy demo_buf demo_src)
     = Some dead_returned \<and>
   rpoint dead_returned = R_Signalled \<and>
   (\<exists>s'. step dead_sink (Reader_locks 22 22) dead_returned = Some s' \<and>
      ReadFrom_result s' = Some (2, Some (Errorf ''write error'' (Failure ''broken pipe''))))"
proof -
  have w: "writeError (shared slow_state) = Some (Errorf ''write error'' (Failure ''broken pipe''))"
    "timely (Reader_locks 22 22) slow_state" "rpoint slow_state = R_Relock 1 None 3"
    "rsum slow_state = 2"
    by (simp_all add: slow_state_def timely_def)
  have v: "writeError (shared dead_returned) = Some (Errorf ''write error'' (Failure ''broken pipe''))"
    "timely (Reader_locks 22 22) dead_returned" "rpoint dead_returned = R_Signalled"
    "rsum dead_returned = 2"
    by (simp_all add: dead_returned_def timely_def)
  from C6_reader_stops_on_write_error[OF demo_New _ slow_exec w(1,2)] w demo_New slow_exec
  have a: "\<exists>s'. step dead_sink (Reader_locks 22 22) slow_state = Some s' \<and>
      ReadFrom_result s' = Some (2, Some (Errorf ''write error'' (Failure ''broken pipe'')))"
    by simp
  from C6_reader_stops_on_write_error[OF demo_New _ dead_exec_returned v(1,2)] v
  have b: "\<exists>s'. step dead_sink (Reader_locks 22 22) dead_returned = Some s' \<and>
      ReadFrom_result s' = Some (2, Some (Errorf ''write error'' (Failure ''broken pipe'')))"
    by simp
  from a b w v demo_New slow_exec dead_exec_returned show ?thesis by simp
qed

subsection \<open>The layout of the ring\<close>

lemma four_New: "New 4 = Some four_buf"
  by code_simp

lemma four_exec: "exec full_sink four_run (Copy four_buf slow_src) = Some four_state"
  by code_simp

text \<open>
  C9, as the specification words it: the free region offered to the producer starts at
  \<open>(fillStart - filled) mod C\<close>. It does not: with one byte in a buffer of four,
  \<open>fillStart\<close> is 0 and the claim gives 3, and the slice that \<open>ReadFrom\<close> has passed to
  \<open>Read\<close> is \<open>b.buf[1:4]\<close>. (Nor does it start at \<open>(readIndex - filled) mod C\<close>, which
  is 0 here.)
\<close>

theorem C9_counterexample:
  "New 4 = Some four_buf \<and>
   exec full_sink four_run (Copy four_buf slow_src) = Some four_state \<and>
   rpoint four_state = R_Reading 1 4 \<and>
   fillStart (shared four_state) = 0 \<and> ready (shared four_state) = 1 \<and>
   free_start (shared four_state) = 1 \<and> spec_free_start (shared four_state) = 3 \<and>
   free_start (shared four_state) \<noteq> spec_free_start (shared four_state) \<and>
   (readIndex (shared four_state) - ready (shared four_state)) mod cap (shared four_state) = 0"
  using four_New four_exec
  by (simp add: four_state_def fillStart_def free_start_def spec_free_start_def filled_slice_def
      free_slice_def cap_def Let_def)

text \<open>
  C9, amended. In every state that a run of \<open>Copy\<close> reaches, \<open>fillStart\<close>, the index of the
  next byte to be consumed, is \<open>(readIndex - filled) mod C\<close>, and the free region starts at
  \<open>readIndex = (fillStart + filled) mod C\<close> and has \<open>C - filled\<close> bytes. With room in the
  buffer, \<open>ReadFrom\<close> offers the part of the free region up to the end of the storage or
  up to \<open>fillStart\<close>: \<open>min (C - filled) (C - readIndex)\<close> bytes from \<open>readIndex\<close> on. With
  bytes in the buffer, \<open>WriteTo\<close> takes the filled bytes up to the end of the storage:
  \<open>min filled (C - fillStart)\<close> bytes from \<open>fillStart\<close> on, before the cut to \<open>maxWrite\<close>.
\<close>

theorem C9_layout:
  assumes "New c = Some b" "1 \<le> c" "exec snk evs (Copy b src) = Some s"
  shows "fillStart (shared s) = (readIndex (shared s) - ready (shared s)) mod c \<and>
         free_start (shared s) = readIndex (shared s) \<and>
         readIndex (shared s) = (fillStart (shared s) + ready (shared s)) mod c \<and>
         (ready (shared s) < c \<longrightarrow>
            free_slice (shared s) =
              (readIndex (shared s),
               readIndex (shared s) + min (c - ready (shared s)) (c - readIndex (shared s)))) \<and>
         (0 < ready (shared s) \<longrightarrow>
            filled_slice (shared s) =
              (fillStart (shared s),
               fillStart (shared s) + min (ready (shared s)) (c - fillStart (shared s))))"
proof -
  note inv = Copy_invariants[OF assms]
  let ?b = "shared s"
  from inv(1,5) have r: "0 < c" "0 \<le> readIndex ?b" "readIndex ?b < c" "0 \<le> ready ?b" "ready ?b \<le> c"
    "cap ?b = c"
    by (auto simp: ring_inv_def)
  have fs: "fillStart ?b = (readIndex ?b - ready ?b) mod c"
  proof (cases "readIndex ?b - ready ?b \<ge> 0")
    case True
    with r show ?thesis by (simp add: fillStart_def filled_slice_def)
  next
    case False
    with r have "(readIndex ?b - ready ?b) mod c = readIndex ?b - ready ?b + c"
      by (intro mod_below) auto
    with False r show ?thesis by (simp add: fillStart_def filled_slice_def)
  qed
  have "(fillStart ?b + ready ?b) mod c = readIndex ?b mod c"
    unfolding fs by (simp add: mod_add_left_eq)
  then have start: "readIndex ?b = (fillStart ?b + ready ?b) mod c" using r by simp
  have free: "free_slice ?b = (readIndex ?b, readIndex ?b + min (c - ready ?b) (c - readIndex ?b))"
    using r by (auto simp: free_slice_def Let_def min_def)
  have filled: "filled_slice ?b = (fillStart ?b, fillStart ?b + min (ready ?b) (c - fillStart ?b))"
    using r by (auto simp: fillStart_def filled_slice_def min_def)
  from fs start free filled show ?thesis by (simp add: free_start_def free_slice_def Let_def)
qed

theorem C9_layout_witness:
  "New 4 = Some four_buf \<and> (1::int) \<le> 4 \<and>
   exec full_sink four_run (Copy four_buf slow_src) = Some four_state \<and>
   ready (shared four_state) = 1 \<and> readIndex (shared four_state) = 1 \<and>
   fillStart (shared four_state) = 0 \<and>
   free_slice (shared four_state) = (1, 4) \<and> filled_slice (shared four_state) = (0, 1)"
proof -
  have "ready (shared four_state) = 1" "readIndex (shared four_state) = 1"
    by (simp_all add: four_state_def)
  with C9_layout[OF four_New _ four_exec] four_New four_exec show ?thesis by simp
qed

subsection \<open>Snapshots\<close>

lemma stats_exec:
  "map_option (\<lambda>s. (reading_times s, writing_times s, map BytesRead (snaps s), map TotalTime (snaps s)))
     (exec full_sink stats_run (Copy demo_buf demo_src))
   = Some ([9, 4, 4, 4], [0, 0, 6, 3], [0, 2, 2, 2], [10, 12, 20, 22])"
  by code_simp

text \<open>
  C8, as the specification words it: the reported \<open>TimeSpentReading\<close> and
  \<open>TimeSpentWriting\<close> never decrease from one \<open>Stats\<close> call to the next. They do: \<open>Read\<close>
  starts at 11 and returns at 15, \<open>Stats\<close> at 20 reports 9 for the read still open, the
  reader takes the lock at 21 and books the 4 it has measured, and \<open>Stats\<close> at 22 reports
  4. The same happens around a \<open>Write\<close>: 6, then 3.
\<close>

theorem C8_counterexample:
  "New 2 = Some demo_buf \<and>
   map_option reading_times (exec full_sink stats_run (Copy demo_buf demo_src)) = Some [9, 4, 4, 4] \<and>
   map_option writing_times (exec full_sink stats_run (Copy demo_buf demo_src)) = Some [0, 0, 6, 3]"
  using demo_New stats_exec by (auto simp: map_option_case split: option.splits)

text \<open>
  C8, amended. In every state that a run of \<open>Copy\<close> reaches, with any number of \<open>Stats\<close>
  calls in it: from each snapshot to every later one, the reported \<open>BytesRead\<close> and
  \<open>TotalTime\<close> do not decrease; every snapshot reports a \<open>BufferedBytes\<close> between 0 and
  the capacity; and the accumulated fields \<open>timeSpentReading\<close> and \<open>timeSpentWriting\<close> of
  the buffer, and its \<open>totalBytesRead\<close>, do not decrease in any continuation of the run.
  (The reported \<open>TimeSpentReading\<close> and \<open>TimeSpentWriting\<close> add the time of the phase that
  is open, up to the clock reading of \<open>Stats\<close>; the duration that is booked for the phase
  was measured before the lock was taken again.)
\<close>

theorem C8_snapshots_monotone:
  assumes "New c = Some b" "1 \<le> c" "exec snk evs (Copy b src) = Some s"
  shows "sorted_wrt snap_le (snaps s) \<and> list_all (snap_ok c) (snaps s) \<and>
         (\<forall>evs' s'. exec snk evs' s = Some s' \<longrightarrow>
            timeSpentReading (shared s) \<le> timeSpentReading (shared s') \<and>
            timeSpentWriting (shared s) \<le> timeSpentWriting (shared s') \<and>
            totalBytesRead (shared s) \<le> totalBytesRead (shared s'))"
proof -
  note inv = Copy_invariants[OF assms]
  have "ring_inv (Copy b src) \<and> time_inv (Copy b src) \<and> snap_inv (Copy b src)"
    using ring_inv_Copy[OF assms(1,2)] time_Copy by simp
  from time_exec[OF this assms(3)] have t: "time_inv s" "snap_inv s" by simp_all
  from t(2) inv(5) have "sorted_wrt snap_le (snaps s)" "list_all (snap_ok c) (snaps s)"
    by (auto simp: snap_inv_def list_all_iff)
  moreover have "timeSpentReading (shared s) \<le> timeSpentReading (shared s') \<and>
            timeSpentWriting (shared s) \<le> timeSpentWriting (shared s') \<and>
            totalBytesRead (shared s) \<le> totalBytesRead (shared s')"
    if e: "exec snk evs' s = Some s'" for evs' s'
    using spent_exec[OF inv(1) t(1) e] by simp
  ultimately show ?thesis by blast
qed

theorem C8_snapshots_monotone_witness:
  "New 2 = Some demo_buf \<and> (1::int) \<le> 2 \<and>
   (\<exists>s. exec full_sink stats_run (Copy demo_buf demo_src) = Some s \<and>
      map BytesRead (snaps s) = [0, 2, 2, 2] \<and> map TotalTime (snaps s) = [10, 12, 20, 22] \<and>
      sorted_wrt snap_le (snaps s) \<and> list_all (snap_ok 2) (snaps s) \<and>
      timeSpentReading (shared (Copy demo_buf demo_src)) \<le> timeSpentReading (shared s) \<and>
      timeSpentWriting (shared (Copy demo_buf demo_src)) \<le> timeSpentWriting (shared s) \<and>
      totalBytesRead (shared (Copy demo_buf demo_src)) \<le> totalBytesRead (shared s))"
proof -
  from stats_exec obtain s where s: "exec full_sink stats_run (Copy demo_buf demo_src) = Some s"
    "map BytesRead (snaps s) = [0, 2, 2, 2]" "map TotalTime (snaps s) = [10, 12, 20, 22]"
    by auto
  have start: "exec full_sink [] (Copy demo_buf demo_src) = Some (Copy demo_buf demo_src)" by simp
  from C8_snapshots_monotone[OF demo_New _ s(1)] C8_snapshots_monotone[OF demo_New _ start] s demo_New
  show ?thesis by auto
qed

subsection \<open>The relay\<close>

lemma sourced_input:
  assumes "exec snk evs (Copy b src) = Some s"
  shows "sourced s @ concat (map fst (source s)) = concat (map fst src)"
  using input_exec[OF assms] by (simp add: Copy_def)

lemma calm_result:
  assumes "New c = Some b" "1 \<le> c" "eof_script src" "never_fails snk"
    and "exec snk evs (Copy b src) = Some s" "Copy_result s = Some r"
  shows "r = (int (length (concat (map fst src))), None)" "sunk s = concat (map fst src)"
proof -
  note inv = Copy_invariants[OF assms(1,2,5)]
  note calm = calm_exec[OF assms(4,1,2,3,5)]
  from assms(6) obtain x where x: "wpoint s = W_Returned x" "r = (wsum s, x)"
    by (auto simp: Copy_result_def split: wpoint.splits)
  with calm have "x = None" by (simp add: calm_inv_def)
  note cl = Copy_result_clean[OF inv(3,4) x(1)[unfolded this]]
  from calm cl(3) have "source s = []" by (simp add: calm_inv_def)
  with sourced_input[OF assms(5)] have "sourced s = concat (map fst src)" by simp
  with cl x \<open>x = None\<close> show "r = (int (length (concat (map fst src))), None)"
    "sunk s = concat (map fst src)" by simp_all
qed

text \<open>
  C1. Whatever the source, the sink, the capacity \<open>C \<ge> 1\<close> and the schedule, the bytes
  that the sink has accepted are at every moment the first of those that the source has
  handed out, in their order, and these are the first of the bytes of the source; and
  when \<open>Copy\<close> has returned nil, the sink has accepted all that the source has handed out.
  With a source that ends with \<open>io.EOF\<close> and a sink that never fails, the sink has all
  the bytes of the source when \<open>Copy\<close> has returned. With the sink that takes each slice
  in full, \<open>Copy\<close> does return: a run takes at most \<open>6 * src_left src + 2\<close> steps of the
  two goroutines, and as long as \<open>Copy\<close> has not returned, a step can be taken.
\<close>

theorem C1_lossless_relay:
  assumes "New c = Some b" "1 \<le> c" "exec snk evs (Copy b src) = Some s"
  shows "prefix (sunk s) (sourced s) \<and> prefix (sourced s) (concat (map fst src)) \<and>
         (\<forall>n. Copy_result s = Some (n, None) \<longrightarrow> sunk s = sourced s) \<and>
         (eof_script src \<and> never_fails snk \<longrightarrow>
            (\<forall>r. Copy_result s = Some r \<longrightarrow> sunk s = concat (map fst src)) \<and>
            (Copy_result s = None \<longrightarrow> (\<exists>s'. step snk (next_event s) s = Some s'))) \<and>
         (eof_script src \<and> snk = full_sink \<longrightarrow> moves evs \<le> 6 * src_left src + 2)"
proof -
  note inv = Copy_invariants[OF assms]
  from inv(3) have 1: "prefix (sunk s) (sourced s)" by (simp add: data_inv_def)
  from sourced_input[OF assms(3)] have 2: "prefix (sourced s) (concat (map fst src))"
    by (metis prefixI)
  have 3: "sunk s = sourced s" if "Copy_result s = Some (n, None)" for n
  proof -
    from that have "wpoint s = W_Returned None"
      by (auto simp: Copy_result_def split: wpoint.splits)
    from Copy_result_clean(1)[OF inv(3,4) this] show ?thesis .
  qed
  have 4: "sunk s = concat (map fst src)"
    if "eof_script src" "never_fails snk" "Copy_result s = Some r" for r
    using calm_result(2)[OF assms(1,2) that(1,2) assms(3) that(3)] .
  have 5: "\<exists>s'. step snk (next_event s) s = Some s'"
    if "eof_script src" "never_fails snk" "Copy_result s = None"
    using next_event_enabled(1)[OF inv(1,4) calm_exec[OF that(2) assms(1,2) that(1) assms(3)] that(3)] .
  have 6: "moves evs \<le> 6 * src_left src + 2" if "eof_script src" "snk = full_sink"
  proof -
    have "ring_inv (Copy b src) \<and> data_inv (Copy b src)"
      using ring_inv_Copy[OF assms(1,2)] data_inv_Copy[OF assms(1,2)] by simp
    from moves_bound[OF this assms(3)[unfolded that(2)]] show ?thesis
      by (simp add: left_def Copy_def)
  qed
  from 1 2 3 4 5 6 show ?thesis by blast
qed

lemma demo_facts:
  "eof_script demo_src" "never_fails full_sink" "Copy_result demo_final = Some (3, None)"
  "sunk demo_final = [97, 98, 99]" "concat (map fst demo_src) = [97, 98, 99]"
  "moves demo_run = 13" "src_left demo_src = 5"
  by (simp_all add: demo_src_def never_fails_def full_sink_def Copy_result_def demo_final_def
      moves_def demo_run_def src_left_def)

theorem C1_lossless_relay_witness:
  "New 2 = Some demo_buf \<and> (1::int) \<le> 2 \<and>
   exec full_sink demo_run (Copy demo_buf demo_src) = Some demo_final \<and>
   eof_script demo_src \<and> never_fails full_sink \<and>
   Copy_result demo_final = Some (3, None) \<and>
   sunk demo_final = [97, 98, 99] \<and> concat (map fst demo_src) = [97, 98, 99] \<and>
   sunk demo_final = sourced demo_final \<and> sunk demo_final = concat (map fst demo_src) \<and>
   moves demo_run \<le> 6 * src_left demo_src + 2"
  using C1_lossless_relay[OF demo_New _ demo_exec] demo_New demo_exec demo_facts
  by simp

text \<open>
  C2. With a source that delivers \<open>M\<close> bytes and then reports \<open>io.EOF\<close>, and a sink that
  never returns an error: when \<open>WriteTo\<close>, and so \<open>Copy\<close>, has returned, it has returned
  \<open>M\<close> and nil, and so has \<open>ReadFrom\<close> when it has returned; as long as \<open>Copy\<close> has not
  returned, one of the two goroutines can take a step; and with the sink that takes
  each slice in full, a run takes at most \<open>6 * src_left src + 2\<close> such steps, so that
  \<open>Copy\<close> returns under every schedule.
\<close>

theorem C2_clean_end_of_input:
  assumes "New c = Some b" "1 \<le> c" "eof_script src" "never_fails snk"
    and "exec snk evs (Copy b src) = Some s"
  shows "(\<forall>r. Copy_result s = Some r \<longrightarrow> r = (int (length (concat (map fst src))), None)) \<and>
         (\<forall>r. ReadFrom_result s = Some r \<longrightarrow> r = (int (length (concat (map fst src))), None)) \<and>
         (Copy_result s = None \<longrightarrow>
            \<not> is_Stats (next_event s) \<and> (\<exists>s'. step snk (next_event s) s = Some s')) \<and>
         (snk = full_sink \<longrightarrow> moves evs \<le> 6 * src_left src + 2)"
proof -
  note inv = Copy_invariants[OF assms(1,2,5)]
  note calm = calm_exec[OF assms(4,1,2,3,5)]
  have 1: "r = (int (length (concat (map fst src))), None)" if "Copy_result s = Some r" for r
    using calm_result(1)[OF assms that] .
  have 2: "r = (int (length (concat (map fst src))), None)" if "ReadFrom_result s = Some r" for r
  proof -
    from that obtain x where x: "rpoint s = R_Returned x" "r = (rsum s, x)"
      by (auto simp: ReadFrom_result_def split: rpoint.splits)
    with calm have "x = None" "source s = []" by (simp_all add: calm_inv_def)
    with sourced_input[OF assms(5)] have "sourced s = concat (map fst src)" by simp
    moreover from inv(3) have "rsum s = int (length (sourced s))" by (simp add: data_inv_def)
    ultimately show ?thesis using x \<open>x = None\<close> by simp
  qed
  have 3: "\<not> is_Stats (next_event s) \<and> (\<exists>s'. step snk (next_event s) s = Some s')"
    if "Copy_result s = None"
    using next_event_enabled[OF inv(1,4) calm that] by simp
  have 4: "moves evs \<le> 6 * src_left src + 2" if "snk = full_sink"
  proof -
    have "ring_inv (Copy b src) \<and> data_inv (Copy b src)"
      using ring_inv_Copy[OF assms(1,2)] data_inv_Copy[OF assms(1,2)] by simp
    from moves_bound[OF this assms(5)[unfolded that]] show ?thesis
      by (simp add: left_def Copy_def)
  qed
  from 1 2 3 4 show ?thesis by blast
qed

theorem C2_clean_end_of_input_witness:
  "New 2 = Some demo_buf \<and> (1::int) \<le> 2 \<and> eof_script demo_src \<and> never_fails full_sink \<and>
   exec full_sink demo_run (Copy demo_buf demo_src) = Some demo_final \<and>
   Copy_result demo_final = Some (3, None) \<and> ReadFrom_result demo_final = Some (3, None) \<and>
   int (length (concat (map fst demo_src))) = 3 \<and>
   moves demo_run \<le> 6 * src_left demo_src + 2"
proof -
  have "ReadFrom_result demo_final = Some (3, None)"
    by (simp add: ReadFrom_result_def demo_final_def)
  with C2_clean_end_of_input[OF demo_New _ demo_facts(1,2) demo_exec] demo_New demo_exec demo_facts
  show ?thesis by simp
qed

end
